theory Spec2Isabelle
  imports Complex_Main
begin

section \<open>The calculator's expression evaluator\<close>

text \<open>
  This theory embeds \<^verbatim>\<open>evaluateExpression\<close> of \<^verbatim>\<open>src/pages/misc/Calculator.tsx\<close>:
  the regular-expression tokenizer, the pass that replaces constants and lower-cases names,
  the shunting-yard loop that produces reverse Polish notation, and the stack evaluator.
  The JavaScript run-time values the function touches (strings, numbers, \<^verbatim>\<open>undefined\<close>)
  are modelled first.
\<close>

subsection \<open>Strings\<close>

text \<open>
  A JavaScript string is a sequence of UTF-16 code units. The source mentions one character
  beyond ASCII, the Greek letter pi (U+03C0); the calculator's display can also hold the
  root sign (U+221A). Both are single code units.
\<close>

type_synonym jsstring = "nat list"

definition js :: "string \<Rightarrow> jsstring" where
  "js s = map of_char s"

definition piSym :: nat where
  "piSym = 960"

definition sqrtSym :: nat where
  "sqrtSym = 8730"

definition isDigit :: "nat \<Rightarrow> bool" where
  \<comment> \<open>the class \<^verbatim>\<open>[0-9]\<close>\<close>
  "isDigit c \<longleftrightarrow> 48 \<le> c \<and> c \<le> 57"

definition isUpper :: "nat \<Rightarrow> bool" where
  "isUpper c \<longleftrightarrow> 65 \<le> c \<and> c \<le> 90"

definition isLower :: "nat \<Rightarrow> bool" where
  "isLower c \<longleftrightarrow> 97 \<le> c \<and> c \<le> 122"

definition isLetter :: "nat \<Rightarrow> bool" where
  \<comment> \<open>the class \<^verbatim>\<open>[A-Za-z]\<close>\<close>
  "isLetter c \<longleftrightarrow> isUpper c \<or> isLower c"

definition isIdentChar :: "nat \<Rightarrow> bool" where
  \<comment> \<open>the class \<^verbatim>\<open>[A-Za-z\<pi>]\<close> of the tokenizer's second group\<close>
  "isIdentChar c \<longleftrightarrow> isLetter c \<or> c = piSym"

definition isSymbolChar :: "nat \<Rightarrow> bool" where
  \<comment> \<open>the class \<^verbatim>\<open>[()+\-*/^%!]\<close> of the tokenizer's third group\<close>
  "isSymbolChar c \<longleftrightarrow> c \<in> set (js ''()+-*/^%!'')"

definition dot :: nat where
  "dot = 46"

definition toLowerCase :: "jsstring \<Rightarrow> jsstring" where
  \<comment> \<open>\<^verbatim>\<open>String.prototype.toLowerCase\<close>; the source applies it to ASCII letters only\<close>
  "toLowerCase s = map (\<lambda>c. if isUpper c then c + 32 else c) s"

subsection \<open>Numbers\<close>

text \<open>
  A JavaScript number is an IEEE 754 binary64 value: a finite value (with two zeros), one of
  the two infinities, or NaN. \<open>Fin x\<close> carries the real number a finite value denotes;
  \<open>Fin 0\<close> is the positive zero and \<open>NegZero\<close> the negative one.
\<close>

datatype jsnum = Fin real | NegZero | PosInfinity | NegInfinity | NaN

fun val :: "jsnum \<Rightarrow> real" where
  "val (Fin x) = x"
| "val _ = 0"

fun negative :: "jsnum \<Rightarrow> bool" where
  "negative (Fin x) = (x < 0)"
| "negative NegZero = True"
| "negative NegInfinity = True"
| "negative _ = False"

fun isZero :: "jsnum \<Rightarrow> bool" where
  "isZero (Fin x) = (x = 0)"
| "isZero NegZero = True"
| "isZero _ = False"

fun isInf :: "jsnum \<Rightarrow> bool" where
  "isInf PosInfinity = True"
| "isInf NegInfinity = True"
| "isInf _ = False"

definition signedInf :: "bool \<Rightarrow> jsnum" where
  "signedInf neg = (if neg then NegInfinity else PosInfinity)"

definition signedZero :: "bool \<Rightarrow> jsnum" where
  "signedZero neg = (if neg then NegZero else Fin 0)"

definition roundHalfEven :: "real \<Rightarrow> int" where
  "roundHalfEven x =
     (let f = \<lfloor>x\<rfloor>; d = x - of_int f
      in if d < 1 / 2 then f else if 1 / 2 < d then f + 1 else if even f then f else f + 1)"

definition rnd :: "real \<Rightarrow> jsnum" where
  \<comment> \<open>round to nearest binary64, ties to even: 53 significant bits, exponents from
      \<open>-1022\<close> (below it the spacing stays \<open>2 powr -1074\<close>) to \<open>1023\<close>\<close>
  "rnd x =
     (if x = 0 then Fin 0
      else
        let e = max \<lfloor>log 2 \<bar>x\<bar>\<rfloor> (- 1022);
            u = 2 powr (of_int e - 52);
            y = of_int (roundHalfEven (x / u)) * u
        in if 2 ^ 1024 \<le> \<bar>y\<bar> then signedInf (x < 0)
           else if y = 0 then signedZero (x < 0)
           else Fin y)"

text \<open>Comparison, as \<^verbatim>\<open><\<close> and \<^verbatim>\<open><=\<close> on numbers: false whenever an operand is NaN.\<close>

fun jless :: "jsnum \<Rightarrow> jsnum \<Rightarrow> bool" where
  "jless NaN _ = False"
| "jless _ NaN = False"
| "jless _ NegInfinity = False"
| "jless NegInfinity _ = True"
| "jless PosInfinity _ = False"
| "jless _ PosInfinity = True"
| "jless a b = (val a < val b)"

definition strictEquals :: "jsnum \<Rightarrow> jsnum \<Rightarrow> bool" where
  \<comment> \<open>\<^verbatim>\<open>===\<close> on two numbers: NaN equals nothing, the two zeros are equal\<close>
  "strictEquals a b \<longleftrightarrow> a \<noteq> NaN \<and> b \<noteq> NaN \<and> (a = b \<or> (isZero a \<and> isZero b))"

text \<open>The arithmetic operators, with the special cases of ECMAScript's Number type.\<close>

definition jneg :: "jsnum \<Rightarrow> jsnum" where
  "jneg a =
     (case a of
        NaN \<Rightarrow> NaN
      | PosInfinity \<Rightarrow> NegInfinity
      | NegInfinity \<Rightarrow> PosInfinity
      | NegZero \<Rightarrow> Fin 0
      | Fin x \<Rightarrow> if x = 0 then NegZero else Fin (- x))"

definition jadd :: "jsnum \<Rightarrow> jsnum \<Rightarrow> jsnum" where
  "jadd a b =
     (if a = NaN \<or> b = NaN then NaN
      else if isInf a \<and> isInf b then (if a = b then a else NaN)
      else if isInf a then a
      else if isInf b then b
      else if a = NegZero \<and> b = NegZero then NegZero
      else rnd (val a + val b))"

definition jsub :: "jsnum \<Rightarrow> jsnum \<Rightarrow> jsnum" where
  "jsub a b = jadd a (jneg b)"

definition jmul :: "jsnum \<Rightarrow> jsnum \<Rightarrow> jsnum" where
  "jmul a b =
     (if a = NaN \<or> b = NaN then NaN
      else if isInf a \<or> isInf b then
        (if isZero a \<or> isZero b then NaN else signedInf (negative a \<noteq> negative b))
      else if isZero a \<or> isZero b then signedZero (negative a \<noteq> negative b)
      else rnd (val a * val b))"

definition jdiv :: "jsnum \<Rightarrow> jsnum \<Rightarrow> jsnum" where
  "jdiv a b =
     (if a = NaN \<or> b = NaN then NaN
      else if isInf a then (if isInf b then NaN else signedInf (negative a \<noteq> negative b))
      else if isInf b then signedZero (negative a \<noteq> negative b)
      else if isZero b then (if isZero a then NaN else signedInf (negative a \<noteq> negative b))
      else if isZero a then signedZero (negative a \<noteq> negative b)
      else rnd (val a / val b))"

definition truncate :: "real \<Rightarrow> int" where
  "truncate x = (if 0 \<le> x then \<lfloor>x\<rfloor> else \<lceil>x\<rceil>)"

definition jrem :: "jsnum \<Rightarrow> jsnum \<Rightarrow> jsnum" where
  \<comment> \<open>\<^verbatim>\<open>%\<close>: the remainder of the truncating division, with the sign of the dividend\<close>
  "jrem a b =
     (if a = NaN \<or> b = NaN then NaN
      else if isInf a then NaN
      else if isInf b then a
      else if isZero b then NaN
      else if isZero a then a
      else
        let r = val a - val b * of_int (truncate (val a / val b))
        in if r = 0 then signedZero (negative a) else Fin r)"

definition oddIntegral :: "jsnum \<Rightarrow> bool" where
  "oddIntegral b = (case b of Fin x \<Rightarrow> x = of_int \<lfloor>x\<rfloor> \<and> odd \<lfloor>x\<rfloor> | _ \<Rightarrow> False)"

definition Math_pow :: "jsnum \<Rightarrow> jsnum \<Rightarrow> jsnum" where
  \<comment> \<open>the case list of ECMAScript's \<^verbatim>\<open>Number::exponentiate\<close>; the last case, whose accuracy
      ECMAScript leaves to the implementation, is taken as correctly rounded\<close>
  "Math_pow a b =
     (if b = NaN then NaN
      else if isZero b then Fin 1
      else if a = NaN then NaN
      else if a = PosInfinity then (if negative b then Fin 0 else PosInfinity)
      else if a = NegInfinity then
        (if negative b then signedZero (oddIntegral b) else signedInf (oddIntegral b))
      else if a = Fin 0 then (if negative b then PosInfinity else Fin 0)
      else if a = NegZero then
        (if negative b then signedInf (oddIntegral b) else signedZero (oddIntegral b))
      else if b = PosInfinity then
        (if 1 < \<bar>val a\<bar> then PosInfinity else if \<bar>val a\<bar> = 1 then NaN else Fin 0)
      else if b = NegInfinity then
        (if 1 < \<bar>val a\<bar> then Fin 0 else if \<bar>val a\<bar> = 1 then NaN else PosInfinity)
      else if val a < 0 \<and> val b \<noteq> of_int \<lfloor>val b\<rfloor> then NaN
      else if val a < 0 \<and> odd \<lfloor>val b\<rfloor> then rnd (- (\<bar>val a\<bar> powr val b))
      else rnd (\<bar>val a\<bar> powr val b))"

text \<open>
  The functions of \<^verbatim>\<open>Math\<close>. ECMAScript fixes their values at zeros, infinities and NaN
  (and \<^verbatim>\<open>Math.log(1)\<close>); elsewhere it leaves the accuracy to the implementation, and the
  model takes the correctly rounded value; an implementation may differ from it in the last
  bits.
\<close>

definition Math_floor :: "jsnum \<Rightarrow> jsnum" where
  "Math_floor a = (case a of Fin x \<Rightarrow> Fin (of_int \<lfloor>x\<rfloor>) | _ \<Rightarrow> a)"

definition Math_sin :: "jsnum \<Rightarrow> jsnum" where
  "Math_sin a =
     (if a = NaN \<or> isInf a then NaN else if isZero a then a else rnd (sin (val a)))"

definition Math_cos :: "jsnum \<Rightarrow> jsnum" where
  "Math_cos a =
     (if a = NaN \<or> isInf a then NaN else if isZero a then Fin 1 else rnd (cos (val a)))"

definition Math_tan :: "jsnum \<Rightarrow> jsnum" where
  "Math_tan a =
     (if a = NaN \<or> isInf a then NaN else if isZero a then a else rnd (tan (val a)))"

definition Math_sqrt :: "jsnum \<Rightarrow> jsnum" where
  "Math_sqrt a =
     (if a = NaN then NaN
      else if isZero a \<or> a = PosInfinity then a
      else if negative a then NaN
      else rnd (sqrt (val a)))"

definition Math_log :: "jsnum \<Rightarrow> jsnum" where
  "Math_log a =
     (if a = NaN then NaN
      else if isZero a then NegInfinity
      else if negative a then NaN
      else if a = PosInfinity then PosInfinity
      else if a = Fin 1 then Fin 0
      else rnd (ln (val a)))"

definition Math_log10 :: "jsnum \<Rightarrow> jsnum" where
  "Math_log10 a =
     (if a = NaN then NaN
      else if isZero a then NegInfinity
      else if negative a then NaN
      else if a = PosInfinity then PosInfinity
      else if a = Fin 1 then Fin 0
      else rnd (log 10 (val a)))"

subsection \<open>Strings to numbers\<close>

text \<open>
  \<open>decimalValue\<close> is the real number that a decimal literal denotes: digits, then
  optionally a dot and more digits. It reads the longest such prefix of the string.
\<close>

definition digitsVal :: "jsstring \<Rightarrow> nat" where
  "digitsVal ds = foldl (\<lambda>n c. 10 * n + (c - 48)) 0 ds"

definition fractionDigits :: "jsstring \<Rightarrow> jsstring" where
  "fractionDigits s =
     (case dropWhile isDigit s of
        [] \<Rightarrow> []
      | d # r \<Rightarrow> if d = dot then takeWhile isDigit r else [])"

definition decimalValue :: "jsstring \<Rightarrow> real" where
  "decimalValue s =
     real (digitsVal (takeWhile isDigit s))
       + real (digitsVal (fractionDigits s)) / 10 ^ length (fractionDigits s)"

definition startsDecimal :: "jsstring \<Rightarrow> bool" where
  "startsDecimal s =
     (case s of
        [] \<Rightarrow> False
      | c # r \<Rightarrow> isDigit c \<or> (c = dot \<and> (case r of [] \<Rightarrow> False | d # _ \<Rightarrow> isDigit d)))"

definition isDecimalLiteral :: "jsstring \<Rightarrow> bool" where
  \<comment> \<open>the whole string is digits with an optional dot and fraction, or a dot and digits\<close>
  "isDecimalLiteral s =
     (case dropWhile isDigit s of
        [] \<Rightarrow> s \<noteq> []
      | d # fp \<Rightarrow> d = dot \<and> list_all isDigit fp \<and> (takeWhile isDigit s \<noteq> [] \<or> fp \<noteq> []))"

text \<open>
  \<^verbatim>\<open>parseFloat\<close> converts the longest prefix that is a decimal literal and returns NaN
  when there is none. ECMAScript's function also skips leading white space and accepts a
  sign, an exponent part and \<^verbatim>\<open>Infinity\<close>; the source calls it only on tokens that
  \<open>isNumber\<close> accepts, which are digits and at most one dot, so these are left out.
\<close>

definition parseFloat :: "jsstring \<Rightarrow> jsnum" where
  "parseFloat s = (if startsDecimal s then rnd (decimalValue s) else NaN)"

text \<open>
  \<^verbatim>\<open>Number(s)\<close> converts the whole string or returns NaN. The source calls it on the
  tokens its other branches leave over: a dot followed by digits, a word of letters and
  pi signs, or a parenthesis. White space, signs before digits, exponents and radix
  prefixes cannot occur inside such a token and are left out of the model.
\<close>

definition Number :: "jsstring \<Rightarrow> jsnum" where
  "Number s =
     (if s = [] then Fin 0
      else if s = js ''Infinity'' then PosInfinity
      else if isDecimalLiteral s then rnd (decimalValue s)
      else NaN)"

text \<open>
  \<^verbatim>\<open>Math.PI\<close> and \<^verbatim>\<open>Math.E\<close> are the binary64 numbers nearest to the two constants;
  \<^verbatim>\<open>String\<close> prints them with sixteen significant digits.
\<close>

definition Math_PI :: jsnum where
  "Math_PI = Fin (884279719003555 / 2 ^ 48)"

definition Math_LN10 :: jsnum where
  \<comment> \<open>the binary64 number nearest to the natural logarithm of 10\<close>
  "Math_LN10 = Fin (2592480341699211 / 2 ^ 50)"

definition Math_E :: jsnum where
  "Math_E = Fin (6121026514868073 / 2 ^ 51)"

definition String_Math_PI :: jsstring where
  "String_Math_PI = js ''3.141592653589793''"

definition String_Math_E :: jsstring where
  "String_Math_E = js ''2.718281828459045''"

subsection \<open>The tokenizer\<close>

text \<open>
  The source runs the global regular expression
  \<^verbatim>\<open>/([0-9]+\.?[0-9]*|\.?[0-9]+)|([A-Za-z\<pi>]+)|([()+\-*/^%!])/g\<close>
  with \<^verbatim>\<open>exec\<close> until it finds no match, pushing each match. At a position the first
  alternative that matches wins and takes as many characters as it can; a position where
  nothing matches is passed over. The three functions below give the length of the match of
  each group at the start of a string, \<open>0\<close> when the group does not match there.
\<close>

definition matchNumber :: "jsstring \<Rightarrow> nat" where
  "matchNumber s =
     (let n = length (takeWhile isDigit s)
      in if 0 < n then
           (case drop n s of
              [] \<Rightarrow> n
            | d # r \<Rightarrow> if d = dot then n + 1 + length (takeWhile isDigit r) else n)
         else
           (case s of
              [] \<Rightarrow> 0
            | d # r \<Rightarrow>
                if d = dot \<and> takeWhile isDigit r \<noteq> [] then 1 + length (takeWhile isDigit r)
                else 0))"

definition matchIdent :: "jsstring \<Rightarrow> nat" where
  "matchIdent s = length (takeWhile isIdentChar s)"

definition matchSymbol :: "jsstring \<Rightarrow> nat" where
  "matchSymbol s = (case s of [] \<Rightarrow> 0 | c # _ \<Rightarrow> if isSymbolChar c then 1 else 0)"

definition matchToken :: "jsstring \<Rightarrow> nat" where
  "matchToken s =
     (if 0 < matchNumber s then matchNumber s
      else if 0 < matchIdent s then matchIdent s
      else matchSymbol s)"

function tokenize :: "jsstring \<Rightarrow> jsstring list" where
  "tokenize s =
     (if s = [] then []
      else if matchToken s = 0 then tokenize (tl s)
      else take (matchToken s) s # tokenize (drop (matchToken s) s))"
  by pat_completeness auto
termination
  by (relation "measure length") (auto simp: neq_Nil_conv)

declare tokenize.simps [simp del]

subsection \<open>Constants and names\<close>

text \<open>
  The second loop of the source rewrites each token with three \<^verbatim>\<open>if\<close> statements in
  a row: the names of pi, then the name of e, then lower-casing of a token that consists
  of ASCII letters (\<^verbatim>\<open>/^[A-Za-z]+$/\<close>).
\<close>

definition normalizeToken :: "jsstring \<Rightarrow> jsstring" where
  "normalizeToken t =
     (let t1 = (if t = [piSym] \<or> t = js ''pi'' \<or> t = js ''PI'' then String_Math_PI else t);
          t2 = (if t1 = js ''e'' then String_Math_E else t1);
          t3 = (if t2 \<noteq> [] \<and> list_all isLetter t2 then toLowerCase t2 else t2)
      in t3)"

definition isNumber :: "jsstring \<Rightarrow> bool" where
  \<comment> \<open>\<^verbatim>\<open>/^[0-9]+\.?[0-9]*$/\<close>\<close>
  "isNumber t =
     (case dropWhile isDigit t of
        [] \<Rightarrow> t \<noteq> []
      | d # fp \<Rightarrow> takeWhile isDigit t \<noteq> [] \<and> d = dot \<and> list_all isDigit fp)"

subsection \<open>Shunting-yard: from tokens to reverse Polish notation\<close>

text \<open>
  The state of the loop is the output queue and the operator stack. The stack is a list
  whose head is the top (\<^verbatim>\<open>ops[ops.length - 1]\<close>).
\<close>

type_synonym yard = "jsstring list \<times> jsstring list"

definition precedence :: "jsstring \<Rightarrow> nat" where
  \<comment> \<open>the table \<^verbatim>\<open>precedence\<close>, read as \<^verbatim>\<open>precedence[t] || 0\<close>\<close>
  "precedence t =
     (if t = js ''+'' \<or> t = js ''-'' then 1
      else if t = js ''*'' \<or> t = js ''/'' \<or> t = js ''%'' then 2
      else if t = js ''^'' then 3
      else 0)"

definition rightAssoc :: "jsstring \<Rightarrow> bool" where
  "rightAssoc t \<longleftrightarrow> t = js ''^''"

definition isFunctionName :: "jsstring \<Rightarrow> bool" where
  "isFunctionName s \<longleftrightarrow>
     s \<in> set [js ''sin'', js ''cos'', js ''tan'', js ''sqrt'', js ''log'', js ''ln'']"

definition isOperator :: "jsstring \<Rightarrow> bool" where
  \<comment> \<open>\<^verbatim>\<open>/^[+\-*/^%]$/\<close>\<close>
  "isOperator t = (case t of [c] \<Rightarrow> c \<in> set (js ''+-*/^%'') | _ \<Rightarrow> False)"

fun popWhile :: "(jsstring \<Rightarrow> bool) \<Rightarrow> yard \<Rightarrow> yard" where
  \<comment> \<open>\<^verbatim>\<open>while (ops.length && P(top)) output.push(ops.pop())\<close>\<close>
  "popWhile P (output, []) = (output, [])"
| "popWhile P (output, x # ops) =
     (if P x then popWhile P (output @ [x], ops) else (output, x # ops))"

definition yields :: "jsstring \<Rightarrow> jsstring \<Rightarrow> bool" where
  \<comment> \<open>the condition under which the operator \<open>t\<close> pops \<open>x\<close>, the top of the stack\<close>
  "yields t x \<longleftrightarrow>
     x \<noteq> js ''('' \<and>
     ((rightAssoc t \<and> precedence t < precedence x)
      \<or> (\<not> rightAssoc t \<and> precedence t \<le> precedence x))"

definition shuntStep :: "jsstring \<Rightarrow> yard \<Rightarrow> yard" where
  "shuntStep t s =
     (case s of (output, ops) \<Rightarrow>
        if isNumber t then (output @ [t], ops)
        else if isFunctionName t then (output, t # ops)
        else if t = js '','' then popWhile (\<lambda>x. x \<noteq> js ''('') (output, ops)
        else if t = js ''('' then (output, t # ops)
        else if t = js '')'' then
          (case popWhile (\<lambda>x. x \<noteq> js ''('') (output, ops) of
             (output1, ops1) \<Rightarrow>
               (case drop 1 ops1 of
                  [] \<Rightarrow> (output1, [])
                | f # ops2 \<Rightarrow>
                    if isFunctionName f then (output1 @ [f], ops2) else (output1, f # ops2)))
        else if t = js ''!'' then (output @ [js ''!''], ops)
        else if isOperator t then
          (case popWhile (yields t) (output, ops) of (output1, ops1) \<Rightarrow> (output1, t # ops1))
        else (output @ [t], ops))"

definition shunt :: "jsstring list \<Rightarrow> yard \<Rightarrow> yard" where
  "shunt tokens s = foldl (\<lambda>s t. shuntStep t s) s tokens"

definition toRPN :: "jsstring list \<Rightarrow> jsstring list" where
  \<comment> \<open>the loop over the tokens, then \<^verbatim>\<open>while (ops.length) output.push(ops.pop())\<close>\<close>
  "toRPN tokens = fst (popWhile (\<lambda>_. True) (shunt tokens ([], [])))"

subsection \<open>Evaluating reverse Polish notation\<close>

text \<open>
  The operand stack is a list whose head is the top. \<^verbatim>\<open>stack.pop()\<close> on an empty array
  returns \<^verbatim>\<open>undefined\<close> (\<open>None\<close> below) and leaves the array empty; the arithmetic
  operators and the functions of \<^verbatim>\<open>Math\<close> convert \<^verbatim>\<open>undefined\<close> to NaN.
\<close>

datatype error = InvalidToken jsstring | InvalidExpression

fun pop :: "jsnum list \<Rightarrow> jsnum option \<times> jsnum list" where
  "pop [] = (None, [])"
| "pop (x # stack) = (Some x, stack)"

fun ToNumber :: "jsnum option \<Rightarrow> jsnum" where
  "ToNumber None = NaN"
| "ToNumber (Some x) = x"

function factorialLoop :: "nat \<Rightarrow> nat \<Rightarrow> jsnum \<Rightarrow> jsnum" where
  \<comment> \<open>\<^verbatim>\<open>for (let i = 2; i <= Math.floor(n); i++) r *= i\<close>, from \<open>i\<close> on, with bound \<open>m\<close>\<close>
  "factorialLoop i m r =
     (if i \<le> m then factorialLoop (Suc i) m (jmul r (Fin (real i))) else r)"
  by pat_completeness auto
termination
  by (relation "measure (\<lambda>(i, m, r). Suc m - i)") auto

declare factorialLoop.simps [simp del]

definition factorialFn :: "jsnum option \<Rightarrow> jsnum" where
  \<comment> \<open>The argument may be \<^verbatim>\<open>undefined\<close>: then both comparisons and \<^verbatim>\<open>n === 0\<close> are
      false, and so is \<^verbatim>\<open>2 <= Math.floor(n)\<close>, as for NaN. Past the first test the floor is
      NaN or a whole number from 0 to 170, which bounds the loop.\<close>
  "factorialFn n =
     (if jless (ToNumber n) (Fin 0) \<or> jless (Fin 170) (ToNumber n) then PosInfinity
      else if (case n of None \<Rightarrow> False | Some x \<Rightarrow> strictEquals x (Fin 0)) then Fin 1
      else
        (case Math_floor (ToNumber n) of
           Fin m \<Rightarrow> factorialLoop 2 (nat \<lfloor>m\<rfloor>) (Fin 1)
         | _ \<Rightarrow> Fin 1))"

definition binary :: "(jsnum \<Rightarrow> jsnum \<Rightarrow> jsnum) \<Rightarrow> jsnum list \<Rightarrow> jsnum list" where
  \<comment> \<open>\<^verbatim>\<open>const b = stack.pop(); const a = stack.pop(); stack.push(f(a, b))\<close>\<close>
  "binary f stack =
     (case pop stack of (b, stack1) \<Rightarrow>
        (case pop stack1 of (a, stack2) \<Rightarrow> f (ToNumber a) (ToNumber b) # stack2))"

definition unary :: "(jsnum option \<Rightarrow> jsnum) \<Rightarrow> jsnum list \<Rightarrow> jsnum list" where
  \<comment> \<open>\<^verbatim>\<open>const a = stack.pop(); stack.push(f(a))\<close>\<close>
  "unary f stack = (case pop stack of (a, stack1) \<Rightarrow> f a # stack1)"

definition Math_has_log10 :: bool where
  \<comment> \<open>For \<open>log\<close> the source tests whether the run-time system has \<^verbatim>\<open>Math.log10\<close> and
      divides \<^verbatim>\<open>Math.log\<close> by \<^verbatim>\<open>Math.LN10\<close> when it has not. The function is part of
      ECMAScript since the 2015 edition, so the test succeeds.\<close>
  "Math_has_log10 = True"

definition evalToken :: "jsstring \<Rightarrow> jsnum list \<Rightarrow> error + jsnum list" where
  "evalToken token stack =
     (if isNumber token then Inr (parseFloat token # stack)
      else if token = js ''+'' then Inr (binary jadd stack)
      else if token = js ''-'' then Inr (binary jsub stack)
      else if token = js ''*'' then Inr (binary jmul stack)
      else if token = js ''/'' then Inr (binary jdiv stack)
      else if token = js ''%'' then Inr (binary jrem stack)
      else if token = js ''^'' then Inr (binary Math_pow stack)
      else if token = js ''!'' then Inr (unary factorialFn stack)
      else if token = js ''sin'' then Inr (unary (\<lambda>a. Math_sin (ToNumber a)) stack)
      else if token = js ''cos'' then Inr (unary (\<lambda>a. Math_cos (ToNumber a)) stack)
      else if token = js ''tan'' then Inr (unary (\<lambda>a. Math_tan (ToNumber a)) stack)
      else if token = js ''sqrt'' then Inr (unary (\<lambda>a. Math_sqrt (ToNumber a)) stack)
      else if token = js ''ln'' then Inr (unary (\<lambda>a. Math_log (ToNumber a)) stack)
      else if token = js ''log'' then
        Inr (unary (\<lambda>a. if Math_has_log10 then Math_log10 (ToNumber a)
                         else jdiv (Math_log (ToNumber a)) Math_LN10) stack)
      else
        (let n = Number token
         in if n \<noteq> NaN then Inr (n # stack) else Inl (InvalidToken token)))"

fun evalRPN :: "jsstring list \<Rightarrow> jsnum list \<Rightarrow> error + jsnum list" where
  "evalRPN [] stack = Inr stack"
| "evalRPN (token # output) stack =
     (case evalToken token stack of
        Inl e \<Rightarrow> Inl e
      | Inr stack1 \<Rightarrow> evalRPN output stack1)"

definition evaluateExpression :: "jsstring \<Rightarrow> error + jsnum" where
  "evaluateExpression input =
     (let tokens = map normalizeToken (tokenize input);
          output = toRPN tokens
      in case evalRPN output [] of
           Inl e \<Rightarrow> Inl e
         | Inr stack \<Rightarrow>
             (case stack of
                [result] \<Rightarrow> Inr result
              | _ \<Rightarrow> Inl InvalidExpression))"

subsection \<open>Number to string\<close>




subsection \<open>Conventional evaluation of an expression\<close>

text \<open>
  The reference against which the evaluator is checked: expressions as trees, the value of a
  tree, and the grammar of well-formed token sequences. \<open>derives k ts e\<close> says that the
  tokens \<open>ts\<close> are an expression all of whose operators outside parentheses have precedence
  at least \<open>k\<close>, and that \<open>e\<close> is its tree. The precedences are 1 for \<open>+\<close> and \<open>-\<close>,
  2 for \<open>*\<close>, \<open>/\<close> and \<open>%\<close>, and 3 for \<open>^\<close>; level 4 holds the literals and the
  parenthesised expressions. An operator of precedence 1 or 2 takes an expression of its own
  level on the left and of the next level on the right (left-associative); \<open>^\<close> takes level
  4 on the left and level 3 on the right (right-associative).
\<close>

datatype binop = Add | Sub | Mul | Div | Rem | Pow

fun opToken :: "binop \<Rightarrow> jsstring" where
  "opToken Add = js ''+''"
| "opToken Sub = js ''-''"
| "opToken Mul = js ''*''"
| "opToken Div = js ''/''"
| "opToken Rem = js ''%''"
| "opToken Pow = js ''^''"

fun applyOp :: "binop \<Rightarrow> jsnum \<Rightarrow> jsnum \<Rightarrow> jsnum" where
  "applyOp Add a b = jadd a b"
| "applyOp Sub a b = jsub a b"
| "applyOp Mul a b = jmul a b"
| "applyOp Div a b = jdiv a b"
| "applyOp Rem a b = jrem a b"
| "applyOp Pow a b = Math_pow a b"

datatype expr = Lit jsstring | Bin expr binop expr

fun exprValue :: "expr \<Rightarrow> jsnum" where
  "exprValue (Lit t) = rnd (decimalValue t)"
| "exprValue (Bin a f b) = applyOp f (exprValue a) (exprValue b)"

fun rpn :: "expr \<Rightarrow> jsstring list" where
  "rpn (Lit t) = [t]"
| "rpn (Bin a f b) = rpn a @ rpn b @ [opToken f]"

fun literals :: "expr \<Rightarrow> bool" where
  "literals (Lit t) = isDecimalLiteral t"
| "literals (Bin a f b) = (literals a \<and> literals b)"

inductive derives :: "nat \<Rightarrow> jsstring list \<Rightarrow> expr \<Rightarrow> bool" where
  literal: "isDecimalLiteral t \<Longrightarrow> derives 4 [t] (Lit t)"
| parens: "derives 1 ts e \<Longrightarrow> derives 4 (js ''('' # ts @ [js '')'']) e"
| power: "derives 4 ts1 a \<Longrightarrow> derives 3 ts2 b \<Longrightarrow>
     derives 3 (ts1 @ js ''^'' # ts2) (Bin a Pow b)"
| product: "derives 2 ts1 a \<Longrightarrow> derives 3 ts2 b \<Longrightarrow> f \<in> {Mul, Div, Rem} \<Longrightarrow>
     derives 2 (ts1 @ opToken f # ts2) (Bin a f b)"
| sum: "derives 1 ts1 a \<Longrightarrow> derives 2 ts2 b \<Longrightarrow> f \<in> {Add, Sub} \<Longrightarrow>
     derives 1 (ts1 @ opToken f # ts2) (Bin a f b)"
| weaken: "derives (Suc k) ts e \<Longrightarrow> derives k ts e"

text \<open>What may follow a token in the text of such an expression: nothing, or a symbol.\<close>

definition follow :: "jsstring \<Rightarrow> bool" where
  "follow rest \<longleftrightarrow> (case rest of [] \<Rightarrow> True | c # _ \<Rightarrow> isSymbolChar c)"

text \<open>
  The invariant of the shunting-yard loop. \<open>ctx k ops\<close>: an expression of level \<open>k\<close> may
  start on the operator stack \<open>ops\<close>, whose top it will not pop. \<open>pending k pend\<close>: the
  operators \<open>pend\<close>, pushed by an expression of level \<open>k\<close>, wait on the stack.
\<close>

definition ctx :: "nat \<Rightarrow> jsstring list \<Rightarrow> bool" where
  "ctx k ops \<longleftrightarrow>
     (case ops of
        [] \<Rightarrow> True
      | x # _ \<Rightarrow>
          x = js ''('' \<or> (\<exists>f. x = opToken f \<and> (precedence x < k \<or> (f = Pow \<and> 3 \<le> k))))"

definition pending :: "nat \<Rightarrow> jsstring list \<Rightarrow> bool" where
  "pending k pend \<longleftrightarrow> (\<forall>x\<in>set pend. \<exists>f. x = opToken f \<and> k \<le> precedence x)"

subsection \<open>Parentheses left open, unknown tokens\<close>

text \<open>
  \<open>unclosed ts n\<close> counts the opening parentheses that the tokens \<open>ts\<close> leave without a
  partner, starting from \<open>n\<close> open ones; a closing parenthesis with none open changes
  nothing.
\<close>

fun unclosed :: "jsstring list \<Rightarrow> nat \<Rightarrow> nat" where
  "unclosed [] n = n"
| "unclosed (t # ts) n =
     unclosed ts (if t = js ''('' then Suc n else if t = js '')'' then n - 1 else n)"

definition opens :: "jsstring list \<Rightarrow> nat" where
  \<comment> \<open>the number of opening parentheses on the operator stack\<close>
  "opens ops = length (filter (\<lambda>x. x = js ''('') ops)"

definition unknownToken :: "jsstring \<Rightarrow> bool" where
  \<comment> \<open>not a number, a function name, an operator or a parenthesis\<close>
  "unknownToken t \<longleftrightarrow>
     \<not> isNumber t \<and> \<not> isFunctionName t \<and> \<not> isOperator t \<and> t \<noteq> js ''!''
     \<and> t \<noteq> js ''('' \<and> t \<noteq> js '')'' \<and> t \<noteq> js '',''"

subsection \<open>Function application, characters of tokens\<close>

definition applyFunction :: "jsstring \<Rightarrow> jsnum \<Rightarrow> jsnum" where
  \<comment> \<open>the function of \<^verbatim>\<open>Math\<close> that the evaluator calls for a function name\<close>
  "applyFunction f a =
     (if f = js ''sin'' then Math_sin a
      else if f = js ''cos'' then Math_cos a
      else if f = js ''tan'' then Math_tan a
      else if f = js ''sqrt'' then Math_sqrt a
      else if f = js ''ln'' then Math_log a
      else if Math_has_log10 then Math_log10 a
      else jdiv (Math_log a) Math_LN10)"

definition tokenChar :: "nat \<Rightarrow> bool" where
  \<comment> \<open>the characters that the three groups of the tokenizer's expression can match\<close>
  "tokenChar c \<longleftrightarrow> isDigit c \<or> c = dot \<or> isIdentChar c \<or> isSymbolChar c"

subsection \<open>Expressions with function calls\<close>

text \<open>
  The same grammar with one more atom: a function name, an opening parenthesis, an
  expression and a closing parenthesis. The tree of a call is the name over the tree of its
  argument, its value the function of the name at the argument's value, and its reverse
  Polish notation the argument's followed by the name.
\<close>

datatype fexpr = FLit jsstring | FBin fexpr binop fexpr | FCall jsstring fexpr

fun fexprValue :: "fexpr \<Rightarrow> jsnum" where
  "fexprValue (FLit t) = rnd (decimalValue t)"
| "fexprValue (FBin a f b) = applyOp f (fexprValue a) (fexprValue b)"
| "fexprValue (FCall g a) = applyFunction g (fexprValue a)"

fun frpn :: "fexpr \<Rightarrow> jsstring list" where
  "frpn (FLit t) = [t]"
| "frpn (FBin a f b) = frpn a @ frpn b @ [opToken f]"
| "frpn (FCall g a) = frpn a @ [g]"

fun fwellformed :: "fexpr \<Rightarrow> bool" where
  "fwellformed (FLit t) = isDecimalLiteral t"
| "fwellformed (FBin a f b) = (fwellformed a \<and> fwellformed b)"
| "fwellformed (FCall g a) = (isFunctionName g \<and> fwellformed a)"

inductive derivesFn :: "nat \<Rightarrow> jsstring list \<Rightarrow> fexpr \<Rightarrow> bool" where
  literal: "isDecimalLiteral t \<Longrightarrow> derivesFn 4 [t] (FLit t)"
| parens: "derivesFn 1 ts e \<Longrightarrow> derivesFn 4 (js ''('' # ts @ [js '')'']) e"
| call: "isFunctionName g \<Longrightarrow> derivesFn 1 ts e \<Longrightarrow>
     derivesFn 4 (g # js ''('' # ts @ [js '')'']) (FCall g e)"
| power: "derivesFn 4 ts1 a \<Longrightarrow> derivesFn 3 ts2 b \<Longrightarrow>
     derivesFn 3 (ts1 @ js ''^'' # ts2) (FBin a Pow b)"
| product: "derivesFn 2 ts1 a \<Longrightarrow> derivesFn 3 ts2 b \<Longrightarrow> f \<in> {Mul, Div, Rem} \<Longrightarrow>
     derivesFn 2 (ts1 @ opToken f # ts2) (FBin a f b)"
| sum: "derivesFn 1 ts1 a \<Longrightarrow> derivesFn 2 ts2 b \<Longrightarrow> f \<in> {Add, Sub} \<Longrightarrow>
     derivesFn 1 (ts1 @ opToken f # ts2) (FBin a f b)"
| weaken: "derivesFn (Suc k) ts e \<Longrightarrow> derivesFn k ts e"

subsection \<open>Accuracy of the functions of Math\<close>

text \<open>
  What it means that a function of \<^verbatim>\<open>Math\<close> computes a given real function: where the
  real value \<open>v\<close> lies in the range of the normal binary64 numbers, the result is a finite
  number within the relative distance \<open>2 ^ -50\<close> of \<open>v\<close>. The bound leaves room for the last
  bits, which ECMAScript does not fix.
\<close>

definition normalRange :: "real \<Rightarrow> bool" where
  "normalRange v \<longleftrightarrow> 2 powr (- 1022) \<le> \<bar>v\<bar> \<and> \<bar>v\<bar> < 2 ^ 1023"

definition approximates :: "jsnum \<Rightarrow> real \<Rightarrow> bool" where
  "approximates a v \<longleftrightarrow> (case a of Fin y \<Rightarrow> \<bar>y - v\<bar> \<le> \<bar>v\<bar> / 2 ^ 50 | _ \<Rightarrow> False)"

section \<open>Properties\<close>

subsection \<open>Rounding\<close>

lemma roundHalfEven_of_int: "roundHalfEven (of_int k) = k"
  by (simp add: roundHalfEven_def)

lemma rnd_at_exponent:
  assumes "2 powr of_int e \<le> \<bar>x\<bar>" "\<bar>x\<bar> < 2 powr of_int (e + 1)" "- 1022 \<le> e"
  shows "rnd x =
     (let u = 2 powr (of_int e - 52); y = of_int (roundHalfEven (x / u)) * u
      in if 2 ^ 1024 \<le> \<bar>y\<bar> then signedInf (x < 0)
         else if y = 0 then signedZero (x < 0) else Fin y)"
proof -
  have pos: "0 < \<bar>x\<bar>" using assms(1) by (smt (verit) powr_gt_zero)
  then have "\<lfloor>log 2 \<bar>x\<bar>\<rfloor> = e"
    using assms(1,2) by (simp add: floor_log_eq_powr_iff)
  moreover have "x \<noteq> 0" using pos by auto
  ultimately show ?thesis using assms(3) by (simp add: rnd_def Let_def max_def)
qed

lemma rnd_exact:
  assumes x: "x = of_int m * 2 powr of_int j" and m: "\<bar>m\<bar> < 2 ^ 53" "m \<noteq> 0"
    and j: "- 1074 \<le> j" and big: "\<bar>x\<bar> < 2 ^ 1024"
  shows "rnd x = Fin x"
proof -
  have x0: "x \<noteq> 0" using x m by simp
  define e where "e = max \<lfloor>log 2 \<bar>x\<bar>\<rfloor> (- 1022)"
  have absx: "\<bar>x\<bar> = of_int \<bar>m\<bar> * 2 powr of_int j" by (simp add: x abs_mult)
  have "\<bar>x\<bar> < 2 ^ 53 * 2 powr of_int j"
  proof -
    have "real_of_int \<bar>m\<bar> < 2 ^ 53" using m(1) by (metis of_int_less_numeral_power_cancel_iff)
    then show ?thesis unfolding absx by (simp)
  qed
  also have "\<dots> = 2 powr of_int (j + 53)"
    by (simp add: powr_add powr_realpow[symmetric] mult.commute)
  finally have lt: "\<bar>x\<bar> < 2 powr of_int (j + 53)" .
  have "log 2 \<bar>x\<bar> < of_int (j + 53)"
    using lt x0 by (simp add: log_less_iff del: of_int_add)
  then have "\<lfloor>log 2 \<bar>x\<bar>\<rfloor> < j + 53" by linarith
  then have le: "e \<le> j + 52" using j by (simp add: e_def)
  define d where "d = nat (j + 52 - e)"
  have dd: "of_int j = (of_int e - 52) + real d" using le by (simp add: d_def)
  have "(2::real) powr of_int j = 2 powr (of_int e - 52) * 2 ^ d"
    by (subst dd, subst powr_add) (simp add: powr_realpow)
  then have q: "x / 2 powr (of_int e - 52) = of_int (m * 2 ^ d)"
    by (simp add: x)
  have y: "of_int (roundHalfEven (x / 2 powr (of_int e - 52))) * 2 powr (of_int e - 52) = x"
    unfolding q roundHalfEven_of_int using q by (simp add: field_simps)
  show ?thesis
    using x0 big y unfolding rnd_def e_def[symmetric] Let_def by (simp)
qed

lemma rnd_of_int: "\<bar>n\<bar> < 2 ^ 53 \<Longrightarrow> rnd (of_int n) = Fin (of_int n)"
proof (cases "n = 0")
  case True then show ?thesis by (simp add: rnd_def)
next
  case False
  assume a: "\<bar>n\<bar> < 2 ^ 53"
  have "\<bar>real_of_int n\<bar> < 2 ^ 53" using a by (metis of_int_abs of_int_less_numeral_power_cancel_iff)
  moreover have "(2::real) ^ 53 < 2 ^ 1024" by (rule power_strict_increasing) simp_all
  ultimately have "\<bar>real_of_int n\<bar> < 2 ^ 1024" by (rule less_trans)
  then show ?thesis using rnd_exact[of "of_int n" n 0] a False by simp
qed

lemma rnd_numeral [simp]: "numeral k < (2::int) ^ 53 \<Longrightarrow> rnd (numeral k) = Fin (numeral k)"
  using rnd_of_int[of "numeral k"] by simp

lemma rnd_neg_numeral [simp]: "numeral k < (2::int) ^ 53 \<Longrightarrow> rnd (- numeral k) = Fin (- numeral k)"
  using rnd_of_int[of "- numeral k"] by simp

lemma rnd_0 [simp]: "rnd 0 = Fin 0" by (simp add: rnd_def)
lemma rnd_1 [simp]: "rnd 1 = Fin 1" using rnd_of_int[of 1] by simp

text \<open>Rounding a real number of the normal range changes it by at most half a unit in the
  last place.\<close>

lemma roundHalfEven_near: "\<bar>of_int (roundHalfEven z) - z\<bar> \<le> 1 / 2"
  unfolding roundHalfEven_def Let_def by (auto; linarith)

lemma rnd_error:
  assumes lo: "2 powr (- 1022) \<le> \<bar>v\<bar>" and hi: "\<bar>v\<bar> < 2 ^ 1023"
  shows "\<exists>y. rnd v = Fin y \<and> \<bar>y - v\<bar> \<le> \<bar>v\<bar> / 2 ^ 53"
proof -
  have v0: "0 < \<bar>v\<bar>" using lo by (smt (verit) powr_gt_zero)
  define e where "e = \<lfloor>log 2 \<bar>v\<bar>\<rfloor>"
  have "\<lfloor>log 2 \<bar>v\<bar>\<rfloor> = e" by (simp add: e_def)
  then have e1: "2 powr of_int e \<le> \<bar>v\<bar>" and e2: "\<bar>v\<bar> < 2 powr of_int (e + 1)"
    using v0 by (simp_all add: floor_log_eq_powr_iff)
  have "- 1022 \<le> log 2 \<bar>v\<bar>" using lo v0 by (simp add: le_log_iff)
  then have e3: "- 1022 \<le> e" unfolding e_def by linarith
  define u :: real where "u = 2 powr (of_int e - 52)"
  define y where "y = of_int (roundHalfEven (v / u)) * u"
  have u0: "0 < u" by (simp add: u_def)
  have r: "rnd v = (if 2 ^ 1024 \<le> \<bar>y\<bar> then signedInf (v < 0)
         else if y = 0 then signedZero (v < 0) else Fin y)"
    using rnd_at_exponent[OF e1 e2 e3] by (simp add: Let_def u_def y_def)
  have "y - v = (of_int (roundHalfEven (v / u)) - v / u) * u"
    using u0 by (simp add: y_def left_diff_distrib)
  then have "\<bar>y - v\<bar> = \<bar>of_int (roundHalfEven (v / u)) - v / u\<bar> * u"
    using u0 by (simp add: abs_mult)
  also have "\<dots> \<le> 1 / 2 * u"
    using roundHalfEven_near[of "v / u"] u0 by (intro mult_right_mono) simp_all
  finally have d: "\<bar>y - v\<bar> \<le> u / 2" by simp
  have "u = 2 powr of_int e / 2 ^ 52"
    by (simp add: u_def powr_diff)
  then have uv: "u / 2 \<le> \<bar>v\<bar> / 2 ^ 53" using e1 by (simp add: field_simps)
  have "\<bar>v\<bar> / 2 ^ 53 < \<bar>v\<bar>" using v0 by simp
  then have y0: "y \<noteq> 0" using d uv by auto
  have "\<bar>y\<bar> \<le> \<bar>v\<bar> + \<bar>v\<bar> / 2 ^ 53" using d uv by linarith
  also have "\<dots> \<le> 2 * \<bar>v\<bar>" by simp
  also have "\<dots> < 2 ^ 1024" using hi by simp
  finally have "\<not> 2 ^ 1024 \<le> \<bar>y\<bar>" by simp
  then show ?thesis using r y0 d uv by auto
qed

subsection \<open>Running the evaluator on a given input\<close>

lemma tokenize_Nil [simp]: "tokenize [] = []"
  by (simp add: tokenize.simps)

lemma tokenize_Cons:
  "tokenize (c # cs) =
     (if matchToken (c # cs) = 0 then tokenize cs
      else take (matchToken (c # cs)) (c # cs) # tokenize (drop (matchToken (c # cs)) (c # cs)))"
  by (subst tokenize.simps) simp

lemmas char_defs = js_def isDigit_def isUpper_def isLower_def isLetter_def isIdentChar_def
  isSymbolChar_def dot_def piSym_def sqrtSym_def
lemmas match_defs = matchToken_def matchNumber_def matchIdent_def matchSymbol_def
lemmas token_defs = isNumber_def isFunctionName_def isOperator_def precedence_def rightAssoc_def
  yields_def normalizeToken_def toLowerCase_def String_Math_PI_def String_Math_E_def

lemmas num_defs = parseFloat_def Number_def startsDecimal_def isDecimalLiteral_def decimalValue_def
  fractionDigits_def digitsVal_def
lemmas arith_defs = jadd_def jsub_def jmul_def jdiv_def jrem_def jneg_def Math_pow_def binary_def
  unary_def
lemmas run_defs = evaluateExpression_def tokenize_Cons toRPN_def shunt_def shuntStep_def
  evalToken_def Math_has_log10_def char_defs match_defs token_defs num_defs arith_defs

subsection \<open>Tokens of a well-formed expression\<close>

lemma popWhile_eq: "popWhile P (out, ops) = (out @ takeWhile P ops, dropWhile P ops)"
  by (induction ops arbitrary: out) auto

lemma shunt_append: "shunt (ts1 @ ts2) s = shunt ts2 (shunt ts1 s)"
  by (simp add: shunt_def)

lemma shunt_Cons: "shunt (t # ts) s = shunt ts (shuntStep t s)"
  by (simp add: shunt_def)

lemma shunt_Nil: "shunt [] s = s"
  by (simp add: shunt_def)

lemma isDecimalLiteral_cases:
  assumes "isDecimalLiteral t"
  obtains (int) "t \<noteq> []" "list_all isDigit t"
  | (frac) ds fs where "t = ds @ dot # fs" "list_all isDigit ds" "list_all isDigit fs" "ds \<noteq> [] \<or> fs \<noteq> []"
proof (cases "dropWhile isDigit t")
  case Nil
  then have "list_all isDigit t" by (simp add: list_all_iff dropWhile_eq_Nil_conv)
  moreover have "t \<noteq> []" using assms Nil by (simp add: isDecimalLiteral_def)
  ultimately show ?thesis using int by blast
next
  case (Cons d fp)
  have "t = takeWhile isDigit t @ dot # fp \<and> list_all isDigit fp \<and> (takeWhile isDigit t \<noteq> [] \<or> fp \<noteq> [])"
    using assms Cons takeWhile_dropWhile_id[of isDigit t] by (auto simp: isDecimalLiteral_def)
  moreover have "list_all isDigit (takeWhile isDigit t)"
    by (simp add: list_all_iff) (meson set_takeWhileD)
  ultimately show ?thesis using frac by blast
qed

lemma symbol_not_digit: "isSymbolChar c \<Longrightarrow> \<not> isDigit c \<and> c \<noteq> dot \<and> \<not> isIdentChar c"
  by (auto simp: char_defs)

lemma takeWhile_digits_follow:
  "list_all isDigit ds \<Longrightarrow> follow rest \<Longrightarrow> takeWhile isDigit (ds @ rest) = ds"
  by (cases rest) (auto simp: follow_def list_all_iff takeWhile_append2 dest: symbol_not_digit)

lemma takeWhile_digits_dot:
  "list_all isDigit ds \<Longrightarrow> takeWhile isDigit (ds @ dot # r) = ds"
  by (auto simp: list_all_iff takeWhile_append2 isDigit_def dot_def)

lemma matchNumber_literal:
  assumes "isDecimalLiteral t" "follow rest"
  shows "matchNumber (t @ rest) = length t"
  using assms(1)
proof (cases rule: isDecimalLiteral_cases)
  case int
  have tw: "takeWhile isDigit (t @ rest) = t" using int assms(2) by (simp add: takeWhile_digits_follow)
  have "matchNumber (t @ rest) =
      (case rest of [] \<Rightarrow> length t
       | d # r \<Rightarrow> if d = dot then length t + 1 + length (takeWhile isDigit r) else length t)"
    unfolding matchNumber_def tw Let_def using int by simp
  then show ?thesis using assms(2)
    by (cases rest) (auto simp: follow_def dest: symbol_not_digit)
next
  case (frac ds fs)
  have tw: "takeWhile isDigit (t @ rest) = ds" using frac by (simp add: takeWhile_digits_dot)
  have tw2: "takeWhile isDigit (fs @ rest) = fs" using frac assms(2) by (simp add: takeWhile_digits_follow)
  show ?thesis
  proof (cases "ds = []")
    case True
    then have "fs \<noteq> []" using frac by simp
    then show ?thesis using frac True tw tw2 by (simp add: matchNumber_def)
  next
    case False
    then show ?thesis using frac tw tw2 by (simp add: matchNumber_def)
  qed
qed

lemma literal_nonempty: "isDecimalLiteral t \<Longrightarrow> t \<noteq> []"
  by (auto simp: isDecimalLiteral_def)

lemma tokenize_literal:
  assumes "isDecimalLiteral t" "follow rest"
  shows "tokenize (t @ rest) = t # tokenize rest"
proof -
  have m: "matchToken (t @ rest) = length t" "0 < length t"
    using matchNumber_literal[OF assms] literal_nonempty[OF assms(1)] by (simp_all add: matchToken_def)
  show ?thesis using m literal_nonempty[OF assms(1)] by (subst tokenize.simps) simp
qed

lemma tokenize_symbol:
  assumes "isSymbolChar c"
  shows "tokenize (c # rest) = [c] # tokenize rest"
proof -
  have "matchNumber (c # rest) = 0" using symbol_not_digit[OF assms] by (simp add: matchNumber_def)
  moreover have "matchIdent (c # rest) = 0" using symbol_not_digit[OF assms] by (simp add: matchIdent_def)
  ultimately have "matchToken (c # rest) = 1" using assms by (simp add: matchToken_def matchSymbol_def)
  then show ?thesis by (subst tokenize.simps) simp
qed

lemma opToken_symbol: "\<exists>c. opToken f = [c] \<and> isSymbolChar c"
  by (cases f) (simp_all add: char_defs)

lemma follow_symbol: "isSymbolChar c \<Longrightarrow> follow (c # r)"
  by (simp add: follow_def)

lemma tokenize_derives:
  "derives k ts e \<Longrightarrow> follow rest \<Longrightarrow> tokenize (concat ts @ rest) = ts @ tokenize rest"
proof (induction arbitrary: rest rule: derives.induct)
  case (literal t)
  then show ?case by (simp add: tokenize_literal)
next
  case (parens ts e)
  have c: "isSymbolChar 40" "isSymbolChar 41" by (simp_all add: char_defs)
  have "tokenize (concat ts @ 41 # rest) = ts @ tokenize (41 # rest)"
    using parens.IH[of "41 # rest"] c by (simp add: follow_symbol)
  then show ?case using c by (simp add: js_def tokenize_symbol)
next
  case (power ts1 a ts2 b)
  have c: "isSymbolChar 94" by (simp add: char_defs)
  have "tokenize (concat ts1 @ 94 # concat ts2 @ rest) = ts1 @ tokenize (94 # concat ts2 @ rest)"
    using power.IH(1)[of "94 # concat ts2 @ rest"] c by (simp add: follow_symbol)
  then show ?case using c power.IH(2)[OF power.prems] by (simp add: js_def tokenize_symbol)
next
  case (product ts1 a ts2 b f)
  obtain c where c: "opToken f = [c]" "isSymbolChar c" using opToken_symbol by blast
  have "tokenize (concat ts1 @ c # concat ts2 @ rest) = ts1 @ tokenize (c # concat ts2 @ rest)"
    using product.IH(1)[of "c # concat ts2 @ rest"] c by (simp add: follow_symbol)
  then show ?case using c product.IH(2)[OF product.prems] by (simp add: tokenize_symbol)
next
  case (sum ts1 a ts2 b f)
  obtain c where c: "opToken f = [c]" "isSymbolChar c" using opToken_symbol by blast
  have "tokenize (concat ts1 @ c # concat ts2 @ rest) = ts1 @ tokenize (c # concat ts2 @ rest)"
    using sum.IH(1)[of "c # concat ts2 @ rest"] c by (simp add: follow_symbol)
  then show ?case using c sum.IH(2)[OF sum.prems] by (simp add: tokenize_symbol)
next
  case (weaken k ts e)
  then show ?case by simp
qed

subsection \<open>The shunting-yard loop on a well-formed expression\<close>

lemma literal_head: "isDecimalLiteral t \<Longrightarrow> \<exists>c r. t = c # r \<and> (isDigit c \<or> c = dot)"
  by (cases t) (auto simp: isDecimalLiteral_def split: list.splits if_splits)

lemma rnd_not_NaN: "rnd x \<noteq> NaN"
  by (simp add: rnd_def Let_def signedInf_def signedZero_def)

lemma normalizeToken_literal: "isDecimalLiteral t \<Longrightarrow> normalizeToken t = t"
  by (drule literal_head) (auto simp: char_defs token_defs)

lemma normalizeToken_symbol: "isSymbolChar c \<Longrightarrow> normalizeToken [c] = [c]"
  by (auto simp: char_defs token_defs)

lemma shuntStep_literal:
  assumes "isDecimalLiteral t"
  shows "shuntStep t (out, ops) = (out @ [t], ops)"
proof -
  obtain c r where t: "t = c # r" "isDigit c \<or> c = dot" using literal_head[OF assms] by blast
  then have "\<not> isFunctionName t" "t \<noteq> js '',''" "t \<noteq> js ''(''" "t \<noteq> js '')''" "t \<noteq> js ''!''" "\<not> isOperator t"
    by (auto simp: char_defs isFunctionName_def isOperator_def split: list.splits)
  then show ?thesis by (simp add: shuntStep_def)
qed

lemma startsDecimal_isNumber: "isNumber t \<Longrightarrow> startsDecimal t"
  by (cases t) (auto simp: isNumber_def startsDecimal_def split: list.splits if_splits)

lemma evalToken_literal:
  assumes "isDecimalLiteral t"
  shows "evalToken t st = Inr (rnd (decimalValue t) # st)"
proof (cases "isNumber t")
  case True
  then show ?thesis by (simp add: evalToken_def parseFloat_def startsDecimal_isNumber)
next
  case False
  obtain c r where t: "t = c # r" "isDigit c \<or> c = dot" using literal_head[OF assms] by blast
  then have "t \<noteq> js ''+''" "t \<noteq> js ''-''" "t \<noteq> js ''*''" "t \<noteq> js ''/''" "t \<noteq> js ''%''" "t \<noteq> js ''^''"
    "t \<noteq> js ''!''" "t \<noteq> js ''sin''" "t \<noteq> js ''cos''" "t \<noteq> js ''tan''" "t \<noteq> js ''sqrt''"
    "t \<noteq> js ''ln''" "t \<noteq> js ''log''" "t \<noteq> js ''Infinity''" "t \<noteq> []"
    by (auto simp: char_defs)
  then show ?thesis using False assms by (simp add: evalToken_def Number_def rnd_not_NaN)
qed

lemma evalToken_op: "evalToken (opToken f) (b # a # st) = Inr (applyOp f a b # st)"
  by (cases f) (simp_all add: evalToken_def isNumber_def binary_def char_defs)

lemma shuntStep_op:
  "shuntStep (opToken f) (out, ops) =
     (case popWhile (yields (opToken f)) (out, ops) of (out1, ops1) \<Rightarrow> (out1, opToken f # ops1))"
  by (cases f) (simp_all add: shuntStep_def isNumber_def isFunctionName_def isOperator_def char_defs)

lemma shuntStep_open: "shuntStep (js ''('') (out, ops) = (out, js ''('' # ops)"
  by (simp add: shuntStep_def isNumber_def isFunctionName_def char_defs)

lemma shuntStep_close:
  "shuntStep (js '')'') (out, ops) =
     (case popWhile (\<lambda>x. x \<noteq> js ''('') (out, ops) of
        (out1, ops1) \<Rightarrow>
          (case drop 1 ops1 of [] \<Rightarrow> (out1, [])
           | f # ops2 \<Rightarrow> if isFunctionName f then (out1 @ [f], ops2) else (out1, f # ops2)))"
  by (simp add: shuntStep_def isNumber_def isFunctionName_def char_defs)

lemma popWhile_pending:
  assumes "\<forall>x\<in>set pend. P x" "case ops of [] \<Rightarrow> True | x # _ \<Rightarrow> \<not> P x"
  shows "popWhile P (out, pend @ ops) = (out @ pend, ops)"
  using assms by (cases ops) (simp_all add: popWhile_eq takeWhile_append2 dropWhile_append2)

lemma precedence_opToken: "precedence (opToken f) = (case f of Add \<Rightarrow> 1 | Sub \<Rightarrow> 1 | Pow \<Rightarrow> 3 | _ \<Rightarrow> 2)"
  by (cases f) (simp_all add: precedence_def char_defs)

lemma opToken_not_paren: "opToken f \<noteq> js ''(''" "\<not> isFunctionName (opToken f)"
  by (cases f; simp add: char_defs isFunctionName_def)+

lemma open_not_function: "\<not> isFunctionName (js ''('')"
  by (simp add: isFunctionName_def char_defs)

lemma opToken_inj: "opToken f = opToken g \<Longrightarrow> f = g"
  by (cases f; cases g; simp add: char_defs)

lemma rightAssoc_opToken: "rightAssoc (opToken f) \<longleftrightarrow> f = Pow"
  by (cases f) (simp_all add: rightAssoc_def char_defs)

lemma ctx_mono: "ctx k ops \<Longrightarrow> k \<le> k' \<Longrightarrow> ctx k' ops"
  by (cases ops) (auto simp: ctx_def)

lemma pending_not_paren: "pending k pend \<Longrightarrow> x \<in> set pend \<Longrightarrow> x \<noteq> js ''(''"
  unfolding pending_def using opToken_not_paren(1) by metis

lemma pending_prec: "pending k pend \<Longrightarrow> x \<in> set pend \<Longrightarrow> k \<le> precedence x"
  unfolding pending_def by metis

lemma popWhile_left:
  assumes f: "f \<noteq> Pow" and pend: "pending (precedence (opToken f)) pend"
    and ctx: "ctx (precedence (opToken f)) ops"
  shows "popWhile (yields (opToken f)) (out, pend @ ops) = (out @ pend, ops)"
proof (rule popWhile_pending)
  show "\<forall>x\<in>set pend. yields (opToken f) x"
    using pend f pending_not_paren[OF pend] pending_prec[OF pend]
    by (auto simp: yields_def rightAssoc_opToken)
  show "case ops of [] \<Rightarrow> True | x # _ \<Rightarrow> \<not> yields (opToken f) x"
    using ctx f
    by (cases ops) (auto simp: ctx_def yields_def rightAssoc_opToken precedence_opToken split: binop.splits)
qed

lemma pending_4: "pending 4 pend \<Longrightarrow> pend = []"
  by (cases pend) (auto simp: pending_def precedence_opToken split: binop.splits)

lemma shunt_derives:
  "derives k ts e \<Longrightarrow> ctx k ops \<Longrightarrow>
   \<exists>out' pend. shunt ts (out, ops) = (out', pend @ ops) \<and> out' @ pend = out @ rpn e \<and> pending k pend"
proof (induction arbitrary: out ops rule: derives.induct)
  case (literal t)
  then show ?case by (simp add: shunt_Cons shunt_Nil shuntStep_literal pending_def)
next
  case (parens ts e)
  have "ctx 1 (js ''('' # ops)" by (simp add: ctx_def)
  from parens.IH[OF this, of out] obtain out' pend where
    s: "shunt ts (out, js ''('' # ops) = (out', pend @ js ''('' # ops)"
       "out' @ pend = out @ rpn e" "pending 1 pend" by blast
  have p: "popWhile (\<lambda>x. x \<noteq> js ''('') (out', pend @ js ''('' # ops) = (out' @ pend, js ''('' # ops)"
    by (rule popWhile_pending) (use pending_not_paren[OF s(3)] in auto)
  have nf: "case ops of [] \<Rightarrow> True | x # _ \<Rightarrow> \<not> isFunctionName x"
    using parens.prems opToken_not_paren(2)[of Pow]
    by (cases ops) (auto simp: ctx_def opToken_not_paren open_not_function)
  have "shunt (js ''('' # ts @ [js '')'']) (out, ops) =
          shuntStep (js '')'') (out', pend @ js ''('' # ops)"
    by (simp add: shunt_Cons shunt_append shunt_Nil shuntStep_open s(1))
  also have "\<dots> = (case ops of [] \<Rightarrow> (out' @ pend, [])
        | f # ops2 \<Rightarrow> if isFunctionName f then ((out' @ pend) @ [f], ops2) else (out' @ pend, f # ops2))"
    by (simp add: shuntStep_close p)
  also have "\<dots> = (out @ rpn e, ops)"
    using nf s(2) by (cases ops) simp_all
  finally have "shunt (js ''('' # ts @ [js '')'']) (out, ops) = (out @ rpn e, ops)" .
  then show ?case by (simp add: pending_def)
next
  case (power ts1 a ts2 b)
  have "ctx 4 ops" using power.prems by (rule ctx_mono) simp
  from power.IH(1)[OF this, of out] obtain out1 pend1 where
    s1: "shunt ts1 (out, ops) = (out1, pend1 @ ops)" "out1 @ pend1 = out @ rpn a" "pending 4 pend1"
    by blast
  have e1: "pend1 = []" using s1(3) by (rule pending_4)
  have "\<forall>x. \<not> yields (js ''^'') x"
    by (auto simp: yields_def rightAssoc_def precedence_def js_def)
  then have p: "popWhile (yields (js ''^'')) (out1, ops) = (out1, ops)"
    by (cases ops) simp_all
  have st: "shuntStep (js ''^'') (out1, ops) = (out1, js ''^'' # ops)"
    using shuntStep_op[of Pow] p by simp
  have "ctx 3 (js ''^'' # ops)" by (auto simp: ctx_def intro: exI[of _ Pow])
  from power.IH(2)[OF this, of out1] obtain out2 pend2 where
    s2: "shunt ts2 (out1, js ''^'' # ops) = (out2, pend2 @ js ''^'' # ops)"
        "out2 @ pend2 = out1 @ rpn b" "pending 3 pend2" by blast
  have "shunt (ts1 @ js ''^'' # ts2) (out, ops) = (out2, (pend2 @ [js ''^'']) @ ops)"
    using e1 by (simp add: shunt_append shunt_Cons s1(1) st s2(1))
  moreover have "out2 @ pend2 @ [js ''^''] = out @ rpn (Bin a Pow b)"
    using s1(2) s2(2) e1 by simp
  moreover have "pending 3 (pend2 @ [js ''^''])"
    using s2(3) precedence_opToken[of Pow] by (auto simp: pending_def intro: exI[of _ Pow])
  ultimately show ?case by (metis append.assoc)
next
  case (product ts1 a ts2 b f)
  have pf: "precedence (opToken f) = 2" "f \<noteq> Pow" using product.hyps(3) by (auto simp: precedence_opToken)
  from product.IH(1)[OF product.prems, of out] obtain out1 pend1 where
    s1: "shunt ts1 (out, ops) = (out1, pend1 @ ops)" "out1 @ pend1 = out @ rpn a" "pending 2 pend1"
    by blast
  have p: "popWhile (yields (opToken f)) (out1, pend1 @ ops) = (out1 @ pend1, ops)"
    using popWhile_left[of f pend1 ops out1] pf s1(3) product.prems by simp
  have st: "shuntStep (opToken f) (out1, pend1 @ ops) = (out @ rpn a, opToken f # ops)"
    by (simp add: shuntStep_op p s1(2))
  have "ctx 3 (opToken f # ops)" using pf by (auto simp: ctx_def)
  from product.IH(2)[OF this, of "out @ rpn a"] obtain out2 pend2 where
    s2: "shunt ts2 (out @ rpn a, opToken f # ops) = (out2, pend2 @ opToken f # ops)"
        "out2 @ pend2 = (out @ rpn a) @ rpn b" "pending 3 pend2" by blast
  have "shunt (ts1 @ opToken f # ts2) (out, ops) = (out2, (pend2 @ [opToken f]) @ ops)"
    by (simp add: shunt_append shunt_Cons s1(1) st s2(1))
  moreover have "out2 @ pend2 @ [opToken f] = out @ rpn (Bin a f b)"
    using s2(2) by simp
  moreover have "pending 2 (pend2 @ [opToken f])"
    using s2(3) pf by (auto simp: pending_def)
  ultimately show ?case by (metis append.assoc)
next
  case (sum ts1 a ts2 b f)
  have pf: "precedence (opToken f) = 1" "f \<noteq> Pow" using sum.hyps(3) by (auto simp: precedence_opToken)
  from sum.IH(1)[OF sum.prems, of out] obtain out1 pend1 where
    s1: "shunt ts1 (out, ops) = (out1, pend1 @ ops)" "out1 @ pend1 = out @ rpn a" "pending 1 pend1"
    by blast
  have p: "popWhile (yields (opToken f)) (out1, pend1 @ ops) = (out1 @ pend1, ops)"
    using popWhile_left[of f pend1 ops out1] pf s1(3) sum.prems by simp
  have st: "shuntStep (opToken f) (out1, pend1 @ ops) = (out @ rpn a, opToken f # ops)"
    by (simp add: shuntStep_op p s1(2))
  have "ctx 2 (opToken f # ops)" using pf by (auto simp: ctx_def)
  from sum.IH(2)[OF this, of "out @ rpn a"] obtain out2 pend2 where
    s2: "shunt ts2 (out @ rpn a, opToken f # ops) = (out2, pend2 @ opToken f # ops)"
        "out2 @ pend2 = (out @ rpn a) @ rpn b" "pending 2 pend2" by blast
  have "shunt (ts1 @ opToken f # ts2) (out, ops) = (out2, (pend2 @ [opToken f]) @ ops)"
    by (simp add: shunt_append shunt_Cons s1(1) st s2(1))
  moreover have "out2 @ pend2 @ [opToken f] = out @ rpn (Bin a f b)"
    using s2(2) by simp
  moreover have "pending 1 (pend2 @ [opToken f])"
    using s2(3) pf by (auto simp: pending_def)
  ultimately show ?case by (metis append.assoc)
next
  case (weaken k ts e)
  have "ctx (Suc k) ops" using weaken.prems by (rule ctx_mono) simp
  from weaken.IH[OF this, of out] obtain out' pend where
    "shunt ts (out, ops) = (out', pend @ ops)" "out' @ pend = out @ rpn e" "pending (Suc k) pend" by blast
  then show ?case by (auto simp: pending_def intro: Suc_leD)
qed

lemma toRPN_derives: "derives k ts e \<Longrightarrow> toRPN ts = rpn e"
proof -
  assume d: "derives k ts e"
  have "ctx k []" by (simp add: ctx_def)
  from shunt_derives[OF d this, of "[]"] obtain out' pend where
    "shunt ts ([], []) = (out', pend)" "out' @ pend = rpn e" by auto
  then show ?thesis by (simp add: toRPN_def popWhile_eq takeWhile_eq_all_conv[THEN iffD2])
qed

subsection \<open>The stack evaluator on reverse Polish notation\<close>

lemma derives_literals: "derives k ts e \<Longrightarrow> literals e"
  by (induction rule: derives.induct) auto

lemma evalRPN_append:
  "evalRPN (xs @ ys) st = (case evalRPN xs st of Inl err \<Rightarrow> Inl err | Inr st' \<Rightarrow> evalRPN ys st')"
  by (induction xs arbitrary: st) (auto split: sum.splits)

lemma evalRPN_rpn: "literals e \<Longrightarrow> evalRPN (rpn e) st = Inr (exprValue e # st)"
proof (induction e arbitrary: st)
  case (Lit t)
  then show ?case by (simp add: evalToken_literal)
next
  case (Bin a f b)
  then show ?case by (simp add: evalRPN_append evalToken_op)
qed

lemma normalizeToken_opToken: "normalizeToken (opToken f) = opToken f"
  by (cases f) (simp_all add: char_defs token_defs)

lemma normalize_derives: "derives k ts e \<Longrightarrow> map normalizeToken ts = ts"
proof (induction rule: derives.induct)
  case (parens ts e)
  then show ?case by (simp add: char_defs token_defs)
qed (simp_all add: normalizeToken_literal normalizeToken_opToken[of Pow, simplified] normalizeToken_opToken)

lemma evaluate_derives:
  assumes "derives k ts e"
  shows "evaluateExpression (concat ts) = Inr (exprValue e)"
proof -
  have "tokenize (concat ts) = ts"
    using tokenize_derives[OF assms, of "[]"] by (simp add: follow_def)
  then have "map normalizeToken (tokenize (concat ts)) = ts"
    using normalize_derives[OF assms] by simp
  then show ?thesis
    by (simp add: evaluateExpression_def toRPN_derives[OF assms] evalRPN_rpn[OF derives_literals[OF assms]])
qed

lemma derives_le: "derives k ts e \<Longrightarrow> j \<le> k \<Longrightarrow> derives j ts e"
proof (induction "k - j" arbitrary: j)
  case 0
  then show ?case by simp
next
  case (Suc d)
  then have "derives (Suc j) ts e" by simp
  then show ?case by (rule derives.weaken)
qed

subsection \<open>The constants as literals\<close>

lemma log100: "log 10 100 = 2"
proof -
  have "log 10 ((10::real) ^ 2) = 2" by (subst log_nat_power) simp_all
  then show ?thesis by simp
qed

lemma powr_m51: "(2::real) powr (of_int 1 - 52) = 1 / 2 ^ 51"
proof -
  have "(2::real) powr (- 51) = inverse (2 powr 51)" by (rule powr_minus)
  also have "(2::real) powr 51 = 2 ^ 51" by (rule powr_numeral) simp
  finally show ?thesis by (simp add: inverse_eq_divide)
qed

lemma rnd_pi: "rnd (3141592653589793 / 10 ^ 15) = Math_PI"
proof -
  define x :: real where "x = 3141592653589793 / 10 ^ 15"
  have b: "2 powr of_int 1 \<le> \<bar>x\<bar>" "\<bar>x\<bar> < 2 powr of_int (1 + 1)" "- 1022 \<le> (1::int)" 
    by (simp_all add: x_def)
  have u: "(2::real) powr (of_int 1 - 52) = 1 / 2 ^ 51"
    by (rule powr_m51)
  have r: "roundHalfEven (x / (1 / 2 ^ 51)) = 7074237752028440"
    by (simp add: roundHalfEven_def Let_def x_def)
  have "rnd x = Math_PI"
    unfolding rnd_at_exponent[OF b] Let_def u r by (simp add: Math_PI_def)
  then show ?thesis by (simp add: x_def)
qed

lemma rnd_e: "rnd (2718281828459045 / 10 ^ 15) = Math_E"
proof -
  define x :: real where "x = 2718281828459045 / 10 ^ 15"
  have b: "2 powr of_int 1 \<le> \<bar>x\<bar>" "\<bar>x\<bar> < 2 powr of_int (1 + 1)" "- 1022 \<le> (1::int)" 
    by (simp_all add: x_def)
  have u: "(2::real) powr (of_int 1 - 52) = 1 / 2 ^ 51"
    by (rule powr_m51)
  have r: "roundHalfEven (x / (1 / 2 ^ 51)) = 6121026514868073"
    by (simp add: roundHalfEven_def Let_def x_def)
  have "rnd x = Math_E"
    unfolding rnd_at_exponent[OF b] Let_def u r by (simp add: Math_E_def)
  then show ?thesis by (simp add: x_def)
qed

subsection \<open>Errors of the stack evaluator\<close>

lemma evalToken_error: "evalToken t st = Inl err \<Longrightarrow> err = InvalidToken t"
  by (auto simp: evalToken_def Let_def split: if_splits)

lemma evalToken_error_stack: "evalToken t st = Inl err \<Longrightarrow> evalToken t st' = Inl err"
  by (auto simp: evalToken_def Let_def split: if_splits)

lemma evalRPN_invalid:
  assumes "t \<in> set ts" "evalToken t [] = Inl (InvalidToken t)"
  shows "\<exists>t'. t' \<in> set ts \<and> evalRPN ts st = Inl (InvalidToken t')"
  using assms(1)
proof (induction ts arbitrary: st)
  case Nil
  then show ?case by simp
next
  case (Cons a ts)
  show ?case
  proof (cases "evalToken a st")
    case (Inl err)
    then show ?thesis using evalToken_error[OF Inl] by auto
  next
    case (Inr st1)
    then have "a \<noteq> t" using evalToken_error_stack[OF assms(2), of st] by auto
    then have "t \<in> set ts" using Cons.prems by simp
    from Cons.IH[OF this, of st1] show ?thesis using Inr by auto
  qed
qed

lemma evalRPN_error:
  "evalRPN ts st = Inl err \<Longrightarrow> \<exists>t\<in>set ts. err = InvalidToken t \<and> evalToken t [] = Inl err"
proof (induction ts arbitrary: st)
  case Nil
  then show ?case by simp
next
  case (Cons a ts)
  show ?case
  proof (cases "evalToken a st")
    case (Inl e)
    then have "err = e" using Cons.prems by simp
    then show ?thesis using evalToken_error[OF Inl] evalToken_error_stack[OF Inl, of "[]"] by auto
  next
    case (Inr st1)
    then have "evalRPN ts st1 = Inl err" using Cons.prems by simp
    from Cons.IH[OF this] show ?thesis by auto
  qed
qed

lemma evaluate_InvalidToken_iff:
  "(\<exists>t. evaluateExpression input = Inl (InvalidToken t)) \<longleftrightarrow>
   (\<exists>t\<in>set (toRPN (map normalizeToken (tokenize input))). evalToken t [] = Inl (InvalidToken t))"
proof
  assume "\<exists>t. evaluateExpression input = Inl (InvalidToken t)"
  then obtain t where t: "evaluateExpression input = Inl (InvalidToken t)" by blast
  then have "evalRPN (toRPN (map normalizeToken (tokenize input))) [] = Inl (InvalidToken t)"
    by (auto simp: evaluateExpression_def Let_def split: sum.splits list.splits)
  from evalRPN_error[OF this] show "\<exists>t\<in>set (toRPN (map normalizeToken (tokenize input))). evalToken t [] = Inl (InvalidToken t)"
    by auto
next
  assume "\<exists>t\<in>set (toRPN (map normalizeToken (tokenize input))). evalToken t [] = Inl (InvalidToken t)"
  then obtain t where "t \<in> set (toRPN (map normalizeToken (tokenize input)))" "evalToken t [] = Inl (InvalidToken t)" by blast
  from evalRPN_invalid[OF this, of "[]"] show "\<exists>t. evaluateExpression input = Inl (InvalidToken t)"
    by (auto simp: evaluateExpression_def Let_def)
qed

subsection \<open>Parentheses on the operator stack\<close>

lemma opens_dropWhile: "opens (dropWhile (\<lambda>x. x \<noteq> js ''('') ops) = opens ops"
  by (induction ops) (auto simp: opens_def)

lemma opens_dropWhile_yields: "opens (dropWhile (yields t) ops) = opens ops"
  by (induction ops) (auto simp: opens_def yields_def)

lemma opens_drop1: "opens (drop (Suc 0) (dropWhile (\<lambda>x. x \<noteq> js ''('') ops)) = opens ops - Suc 0"
  by (induction ops) (auto simp: opens_def)

lemma open_facts: "\<not> isNumber (js ''('')" "\<not> isNumber (js '')'')" "\<not> isFunctionName (js ''('')"
  "\<not> isFunctionName (js '')'')" "\<not> isOperator (js ''('')" "\<not> isOperator (js '')'')"
  by (simp_all add: isNumber_def isFunctionName_def isOperator_def char_defs)

lemma paren_neq: "js ''('' \<noteq> js '',''" "js '')'' \<noteq> js '',''" "js ''('' \<noteq> js '')''"
  "js ''('' \<noteq> js ''!''" "js '')'' \<noteq> js ''!''" "js '','' \<noteq> js ''(''" "js '','' \<noteq> js '')''"
  "js '')'' \<noteq> js ''(''"
  by (simp_all add: js_def)

lemma opens_shuntStep:
  "opens (snd (shuntStep t (out, ops))) =
     (if t = js ''('' then Suc (opens ops) else if t = js '')'' then opens ops - 1 else opens ops)"
proof -
  consider (num) "isNumber t" | (fn) "\<not> isNumber t" "isFunctionName t"
    | (comma) "\<not> isNumber t" "\<not> isFunctionName t" "t = js '',''"
    | (op) "t = js ''(''" | (cl) "t = js '')''"
    | (other) "\<not> isNumber t" "\<not> isFunctionName t" "t \<noteq> js '',''" "t \<noteq> js ''(''" "t \<noteq> js '')''"
    by blast
  then show ?thesis
  proof cases
    case num
    then show ?thesis using open_facts by (auto simp: shuntStep_def)
  next
    case fn
    then show ?thesis using open_facts by (auto simp: shuntStep_def opens_def)
  next
    case comma
    then show ?thesis using paren_neq by (simp add: shuntStep_def popWhile_eq opens_dropWhile)
  next
    case op
    then show ?thesis using open_facts paren_neq by (simp add: shuntStep_def opens_def)
  next
    case cl
    have "opens (snd (case drop 1 (dropWhile (\<lambda>x. x \<noteq> js ''('') ops) of
             [] \<Rightarrow> (o1, [])
           | f # ops2 \<Rightarrow> if isFunctionName f then (o1 @ [f], ops2) else (o1, f # ops2)))
       = opens (drop 1 (dropWhile (\<lambda>x. x \<noteq> js ''('') ops))" for o1
      using open_facts by (auto simp: opens_def split: list.splits)
    then show ?thesis using cl open_facts paren_neq
      by (simp add: shuntStep_def popWhile_eq opens_drop1)
  next
    case other
    then show ?thesis
      by (auto simp: shuntStep_def popWhile_eq opens_dropWhile_yields[unfolded opens_def] opens_def)
  qed
qed

lemma opens_shunt: "opens (snd (shunt ts (out, ops))) = unclosed ts (opens ops)"
proof (induction ts arbitrary: out ops)
  case Nil
  then show ?case by (simp add: shunt_Nil)
next
  case (Cons t ts)
  obtain out1 ops1 where s: "shuntStep t (out, ops) = (out1, ops1)" by (cases "shuntStep t (out, ops)")
  have "opens ops1 = (if t = js ''('' then Suc (opens ops) else if t = js '')'' then opens ops - 1 else opens ops)"
    using opens_shuntStep[of t out ops] s by simp
  then show ?case using Cons.IH[of out1 ops1] by (simp add: shunt_Cons s)
qed

lemma normalizeToken_paren:
  "normalizeToken t = js ''('' \<longleftrightarrow> t = js ''(''" "normalizeToken t = js '')'' \<longleftrightarrow> t = js '')''"
  by (auto simp: normalizeToken_def Let_def toLowerCase_def String_Math_PI_def String_Math_E_def js_def
      isLetter_def isUpper_def isLower_def piSym_def list_all_iff split: if_splits)

lemma unclosed_normalize: "unclosed (map normalizeToken ts) n = unclosed ts n"
  by (induction ts arbitrary: n) (simp_all add: normalizeToken_paren)

lemma evalToken_open: "evalToken (js ''('') st = Inl (InvalidToken (js ''(''))"
  by (simp add: evalToken_def isNumber_def Number_def isDecimalLiteral_def char_defs)

lemma unclosed_raises:
  assumes "0 < unclosed (tokenize input) 0"
  shows "\<exists>t. evaluateExpression input = Inl (InvalidToken t)"
proof -
  let ?ts = "map normalizeToken (tokenize input)"
  obtain out ops where s: "shunt ?ts ([], []) = (out, ops)" by (cases "shunt ?ts ([], [])")
  have "opens ops = unclosed ?ts 0" using opens_shunt[of ?ts "[]" "[]"] s by (simp add: opens_def)
  then have "0 < opens ops" using assms by (simp add: unclosed_normalize)
  then have "js ''('' \<in> set ops"
    by (auto simp: opens_def filter_empty_conv)
  then have "js ''('' \<in> set (toRPN ?ts)"
    by (simp add: toRPN_def s popWhile_eq takeWhile_eq_all_conv[THEN iffD2])
  then show ?thesis using evaluate_InvalidToken_iff[of input] evalToken_open by blast
qed

subsection \<open>Tokens that no branch of the parser knows\<close>

lemma isOperator_iff: "isOperator t \<longleftrightarrow> (\<exists>f. t = opToken f)"
proof
  assume "isOperator t"
  then obtain c where c: "t = [c]" "c \<in> set (js ''+-*/^%'')"
    by (auto simp: isOperator_def split: list.splits)
  then consider "t = opToken Add" | "t = opToken Sub" | "t = opToken Mul" | "t = opToken Div"
    | "t = opToken Pow" | "t = opToken Rem"
    by (auto simp: js_def)
  then show "\<exists>f. t = opToken f" by metis
next
  assume "\<exists>f. t = opToken f"
  then obtain f where "t = opToken f" by blast
  then show "isOperator t" by (cases f) (simp_all add: isOperator_def js_def)
qed

lemma shuntStep_unknown: "unknownToken t \<Longrightarrow> shuntStep t (out, ops) = (out @ [t], ops)"
  by (simp add: unknownToken_def shuntStep_def)

lemma evalToken_unknown:
  assumes "unknownToken t"
  shows "evalToken t st = (if Number t = NaN then Inl (InvalidToken t) else Inr (Number t # st))"
proof -
  have "\<And>f. t \<noteq> opToken f" using assms isOperator_iff by (auto simp: unknownToken_def)
  from this[of Add] this[of Sub] this[of Mul] this[of Div] this[of Rem] this[of Pow]
  have 1: "t \<noteq> js ''+''" "t \<noteq> js ''-''" "t \<noteq> js ''*''" "t \<noteq> js ''/''" "t \<noteq> js ''%''" "t \<noteq> js ''^''"
    by simp_all
  have 2: "t \<noteq> js ''sin''" "t \<noteq> js ''cos''" "t \<noteq> js ''tan''" "t \<noteq> js ''sqrt''"
    "t \<noteq> js ''ln''" "t \<noteq> js ''log''"
    using assms by (auto simp: unknownToken_def isFunctionName_def)
  show ?thesis using assms 1 2 by (simp add: evalToken_def unknownToken_def Let_def)
qed

lemma evalToken_Inl_unknown:
  assumes "evalToken t st = Inl err"
  shows "Number t = NaN \<and> \<not> isNumber t \<and> \<not> isFunctionName t \<and> \<not> isOperator t \<and> t \<noteq> js ''!''"
proof -
  have "\<not> isOperator t"
  proof
    assume "isOperator t"
    then obtain f where "t = opToken f" using isOperator_iff by blast
    then show False using assms by (cases f) (auto simp: evalToken_def split: if_splits)
  qed
  moreover have "\<not> isFunctionName t"
    using assms by (auto simp: evalToken_def isFunctionName_def split: if_splits)
  ultimately show ?thesis using assms by (auto simp: evalToken_def Let_def split: if_splits)
qed

lemma popWhile_sets:
  "set (fst (popWhile P (out, ops))) \<union> set (snd (popWhile P (out, ops))) = set out \<union> set ops"
  "set out \<subseteq> set (fst (popWhile P (out, ops)))"
proof -
  have "set (takeWhile P ops) \<union> set (dropWhile P ops) = set ops"
    by (metis set_append takeWhile_dropWhile_id)
  then show "set (fst (popWhile P (out, ops))) \<union> set (snd (popWhile P (out, ops))) = set out \<union> set ops"
    by (auto simp: popWhile_eq)
  show "set out \<subseteq> set (fst (popWhile P (out, ops)))" by (auto simp: popWhile_eq)
qed

lemma shuntStep_output_mono: "set out \<subseteq> set (fst (shuntStep t (out, ops)))"
  by (auto simp: shuntStep_def popWhile_eq split: list.splits)

lemma shunt_output_mono: "set out \<subseteq> set (fst (shunt ts (out, ops)))"
proof (induction ts arbitrary: out ops)
  case Nil
  then show ?case by (simp add: shunt_Nil)
next
  case (Cons t ts)
  obtain out1 ops1 where s: "shuntStep t (out, ops) = (out1, ops1)" by (cases "shuntStep t (out, ops)")
  have "set out \<subseteq> set out1" using shuntStep_output_mono[of out t ops] s by simp
  then show ?case using Cons.IH[of out1 ops1] by (auto simp: shunt_Cons s)
qed

lemma shunt_unknown:
  assumes "t \<in> set ts" "unknownToken t"
  shows "t \<in> set (fst (shunt ts (out, ops)))"
proof -
  obtain xs ys where ts: "ts = xs @ t # ys" using assms(1) by (meson split_list)
  obtain out1 ops1 where s: "shunt xs (out, ops) = (out1, ops1)" by (cases "shunt xs (out, ops)")
  have "shunt ts (out, ops) = shunt ys (out1 @ [t], ops1)"
    by (simp add: ts shunt_append shunt_Cons s shuntStep_unknown[OF assms(2)])
  then show ?thesis using shunt_output_mono[of "out1 @ [t]" ys ops1] by auto
qed

lemma toRPN_eq: "toRPN ts = fst (shunt ts ([], [])) @ snd (shunt ts ([], []))"
  by (cases "shunt ts ([], [])") (simp add: toRPN_def popWhile_eq takeWhile_eq_all_conv[THEN iffD2])

lemma toRPN_unknown: "t \<in> set ts \<Longrightarrow> unknownToken t \<Longrightarrow> t \<in> set (toRPN ts)"
  using shunt_unknown[of t ts "[]" "[]"] by (simp add: toRPN_eq)

lemma shuntStep_sets:
  "set (fst (shuntStep t (out, ops))) \<union> set (snd (shuntStep t (out, ops)))
     \<subseteq> set out \<union> set ops \<union> ({t} - {js '')'', js '',''})"
proof -
  have p: "set (fst (popWhile P (out, ops))) \<subseteq> set out \<union> set ops"
          "set (snd (popWhile P (out, ops))) \<subseteq> set out \<union> set ops" for P
    using popWhile_sets(1)[of P out ops] by auto
  have d: "set (drop 1 xs) \<subseteq> set xs" for xs :: "jsstring list" by (simp add: set_drop_subset)
  have n: "\<not> isNumber (js '')'')" "\<not> isNumber (js '','')" "\<not> isFunctionName (js '')'')"
    "\<not> isFunctionName (js '','')" "js '')'' \<noteq> js ''(''" "js '','' \<noteq> js ''(''"
    "\<not> isOperator (js '','')" "js '','' \<noteq> js ''!''" "js '')'' \<noteq> js ''!''" "js '','' \<noteq> js '')''"
    by (simp_all add: isNumber_def isFunctionName_def isOperator_def char_defs)
  consider (cl) "t = js '')''" | (comma) "t = js '',''" | (other) "t \<noteq> js '')''" "t \<noteq> js '',''" by blast
  then show ?thesis
  proof cases
    case cl
    obtain o1 p1 where pw: "popWhile (\<lambda>x. x \<noteq> js ''('') (out, ops) = (o1, p1)"
      by (cases "popWhile (\<lambda>x. x \<noteq> js ''('') (out, ops)")
    have "set o1 \<subseteq> set out \<union> set ops" "set p1 \<subseteq> set out \<union> set ops"
      using p[of "\<lambda>x. x \<noteq> js ''(''"] pw by simp_all
    moreover have "set (drop 1 p1) \<subseteq> set p1" by (rule d)
    ultimately show ?thesis using cl n
      by (auto simp: shuntStep_def pw split: list.splits)
  next
    case comma
    then show ?thesis using n p[of "\<lambda>x. x \<noteq> js ''(''"] by (simp add: shuntStep_def)
  next
    case other
    obtain o1 p1 where pw: "popWhile (yields t) (out, ops) = (o1, p1)"
      by (cases "popWhile (yields t) (out, ops)")
    have "set o1 \<subseteq> set out \<union> set ops" "set p1 \<subseteq> set out \<union> set ops"
      using p[of "yields t"] pw by simp_all
    then show ?thesis using other by (auto simp: shuntStep_def pw)
  qed
qed

lemma shunt_sets:
  "set (fst (shunt ts (out, ops))) \<union> set (snd (shunt ts (out, ops)))
     \<subseteq> set out \<union> set ops \<union> (set ts - {js '')'', js '',''})"
proof (induction ts arbitrary: out ops)
  case Nil
  then show ?case by (simp add: shunt_Nil)
next
  case (Cons t ts)
  obtain out1 ops1 where s: "shuntStep t (out, ops) = (out1, ops1)" by (cases "shuntStep t (out, ops)")
  have "set out1 \<union> set ops1 \<subseteq> set out \<union> set ops \<union> ({t} - {js '')'', js '',''})"
    using shuntStep_sets[of t out ops] s by simp
  then show ?case using Cons.IH[of out1 ops1] by (auto simp: shunt_Cons s)
qed

lemma toRPN_sets: "set (toRPN ts) \<subseteq> set ts - {js '')'', js '',''}"
  using shunt_sets[of ts "[]" "[]"] by (auto simp: toRPN_eq)

subsection \<open>Decimal numerals\<close>








lemma rnd_of_nat: "n < 2 ^ 53 \<Longrightarrow> rnd (real n) = Fin (real n)"
  using rnd_of_int[of "int n"] by simp



subsection \<open>The factorial\<close>

lemma factorialLoop_foldl:
  "factorialLoop i m r = foldl (\<lambda>r i. jmul r (Fin (real i))) r [i..<Suc m]"
proof (induction i m r rule: factorialLoop.induct)
  case (1 i m r)
  show ?case
  proof (cases "i \<le> m")
    case True
    then have "[i..<Suc m] = i # [Suc i..<Suc m]" by (simp add: upt_conv_Cons)
    then show ?thesis using 1 True by (subst factorialLoop.simps) simp
  next
    case False
    then show ?thesis by (subst factorialLoop.simps) simp
  qed
qed

lemma factorialFn_out_of_range:
  "jless n (Fin 0) \<or> jless (Fin 170) n \<Longrightarrow> factorialFn (Some n) = PosInfinity"
  by (simp add: factorialFn_def)

lemma factorialFn_in_range:
  assumes "0 \<le> x" "x \<le> 170"
  shows "factorialFn (Some (Fin x)) =
           foldl (\<lambda>r i. jmul r (Fin (real i))) (Fin 1) [2..<Suc (nat \<lfloor>x\<rfloor>)]"
proof (cases "x = 0")
  case True
  then show ?thesis by (simp add: factorialFn_def strictEquals_def)
next
  case False
  then show ?thesis using assms
    by (simp add: factorialFn_def strictEquals_def Math_floor_def factorialLoop_foldl)
qed

lemma jmul_exact:
  assumes "0 < a" "0 < b" "a * b < 2 ^ 53"
  shows "jmul (Fin (real a)) (Fin (real b)) = Fin (real (a * b))"
  using assms rnd_of_nat[of "a * b"] by (simp add: jmul_def)

lemma fact_18: "fact 18 < (2::nat) ^ 53"
  by (simp add: fact_numeral)

lemma fact_le_18: "m \<le> 18 \<Longrightarrow> fact m < (2::nat) ^ 53"
  using fact_mono[of m 18, where 'a=nat] fact_18 by linarith

lemma foldl_fact:
  "m \<le> 18 \<Longrightarrow> k \<le> m \<Longrightarrow> 
   foldl (\<lambda>r i. jmul r (Fin (real i))) (Fin 1) [2..<Suc k] = Fin (real (fact k :: nat))"
proof (induction k)
  case 0
  then show ?case by simp
next
  case (Suc k)
  show ?case
  proof (cases "k = 0")
    case True
    then show ?thesis by simp
  next
    case False
    then have u: "[2..<Suc (Suc k)] = [2..<Suc k] @ [Suc k]" by simp
    have "fact (Suc k) < (2::nat) ^ 53" using Suc.prems fact_le_18[of "Suc k"] by simp
    then have "fact k * Suc k < (2::nat) ^ 53" by (simp add: mult.commute)
    then have "jmul (Fin (real (fact k :: nat))) (Fin (real (Suc k))) = Fin (real (fact k * Suc k))"
      by (intro jmul_exact) simp_all
    then show ?thesis using Suc by (simp only: u foldl_append foldl.simps) (simp add: mult.commute)
  qed
qed

lemma factorialFn_exact:
  assumes "0 \<le> x" "x < 19"
  shows "factorialFn (Some (Fin x)) = Fin (real (fact (nat \<lfloor>x\<rfloor>) :: nat))"
proof -
  have "nat \<lfloor>x\<rfloor> \<le> 18" using assms by linarith
  then show ?thesis using factorialFn_in_range[of x] assms foldl_fact[of "nat \<lfloor>x\<rfloor>" "nat \<lfloor>x\<rfloor>"] by simp
qed

lemma evalToken_factorial: "evalToken (js ''!'') (n # st) = Inr (factorialFn (Some n) # st)"
  by (simp add: evalToken_def isNumber_def unary_def char_defs)

subsection \<open>Characters the tokenizer passes over\<close>

lemma sqrtSym_not_tokenChar: "\<not> tokenChar sqrtSym"
  by (simp add: tokenChar_def char_defs)

lemma tokenize_skip:
  assumes "\<not> tokenChar c"
  shows "tokenize (c # s) = tokenize s"
proof -
  have "matchToken (c # s) = 0"
    using assms by (simp add: tokenChar_def match_defs)
  then show ?thesis by (subst tokenize.simps) simp
qed

lemma take_takeWhile: "take (length (takeWhile P s)) s = takeWhile P s"
  by (induction s) auto

lemma matchNumber_chars:
  assumes "c \<in> set (take (matchNumber s) s)"
  shows "isDigit c \<or> c = dot"
proof -
  let ?n = "length (takeWhile isDigit s)"
  have s: "s = takeWhile isDigit s @ drop ?n s"
    by (metis append_take_drop_id take_takeWhile)
  have dg: "\<And>x. x \<in> set (takeWhile isDigit r) \<Longrightarrow> isDigit x" for r by (meson set_takeWhileD)
  show ?thesis
  proof (cases "0 < ?n")
    case True
    show ?thesis
    proof (cases "drop ?n s")
      case Nil
      then have "matchNumber s = ?n" using True by (simp add: matchNumber_def)
      then show ?thesis using assms dg by (auto simp: take_takeWhile)
    next
      case (Cons d r)
      show ?thesis
      proof (cases "d = dot")
        case False
        then have "matchNumber s = ?n" using True Cons by (simp add: matchNumber_def)
        then show ?thesis using assms dg by (auto simp: take_takeWhile)
      next
        case dt: True
        let ?k = "length (takeWhile isDigit r)"
        have m: "matchNumber s = ?n + 1 + ?k" using True Cons dt by (simp add: matchNumber_def)
        have "take (?n + 1 + ?k) (takeWhile isDigit s @ d # r) = takeWhile isDigit s @ d # takeWhile isDigit r"
          by (simp add: take_takeWhile)
        then have "take (matchNumber s) s = takeWhile isDigit s @ d # takeWhile isDigit r"
          using s Cons m by metis
        then show ?thesis using assms dg dt by auto
      qed
    qed
  next
    case False
    then have n0: "takeWhile isDigit s = []" by simp
    show ?thesis
    proof (cases s)
      case Nil
      then show ?thesis using assms by simp
    next
      case (Cons d r)
      show ?thesis
      proof (cases "d = dot \<and> takeWhile isDigit r \<noteq> []")
        case True
        then have "matchNumber s = 1 + length (takeWhile isDigit r)" 
          using n0 Cons by (simp add: matchNumber_def del: takeWhile_eq_Nil_iff)
        then have "take (matchNumber s) s = d # takeWhile isDigit r" using Cons by (simp add: take_takeWhile)
        then show ?thesis using assms dg True by auto
      next
        case False
        then have "matchNumber s = 0" using n0 Cons by (auto simp: matchNumber_def simp del: takeWhile_eq_Nil_iff)
        then show ?thesis using assms by simp
      qed
    qed
  qed
qed

lemma matchToken_chars:
  assumes "c \<in> set (take (matchToken s) s)"
  shows "tokenChar c"
proof -
  consider (num) "0 < matchNumber s" | (id) "matchNumber s = 0" "0 < matchIdent s"
    | (sym) "matchNumber s = 0" "matchIdent s = 0" by linarith
  then show ?thesis
  proof cases
    case num
    then show ?thesis using assms matchNumber_chars[of c s] by (auto simp: matchToken_def tokenChar_def)
  next
    case id
    then have "take (matchToken s) s = takeWhile isIdentChar s"
      by (simp add: matchToken_def matchIdent_def take_takeWhile)
    then show ?thesis using assms by (auto simp: tokenChar_def dest: set_takeWhileD)
  next
    case sym
    then show ?thesis using assms
      by (cases s) (auto simp: matchToken_def matchSymbol_def tokenChar_def split: if_splits)
  qed
qed

lemma tokenize_chars: "t \<in> set (tokenize s) \<Longrightarrow> c \<in> set t \<Longrightarrow> tokenChar c"
proof (induction s rule: tokenize.induct)
  case (1 s)
  show ?case
  proof (cases "s = []")
    case True
    then show ?thesis using "1.prems" by simp
  next
    case False
    show ?thesis
    proof (cases "matchToken s = 0")
      case True
      then have "tokenize s = tokenize (tl s)" using False by (subst tokenize.simps) simp
      then show ?thesis using "1.IH"(1)[OF False True] "1.prems" by simp
    next
      case nz: False
      then have "tokenize s = take (matchToken s) s # tokenize (drop (matchToken s) s)"
        using False by (subst tokenize.simps) simp
      then consider "t = take (matchToken s) s" | "t \<in> set (tokenize (drop (matchToken s) s))"
        using "1.prems"(1) by auto
      then show ?thesis
      proof cases
        case 1
        then show ?thesis using "1.prems"(2) matchToken_chars by blast
      next
        case 2
        then show ?thesis using "1.IH"(2)[OF False nz] "1.prems"(2) by simp
      qed
    qed
  qed
qed

lemma comma_not_token: "js '','' \<notin> set (map normalizeToken (tokenize s))"
proof
  assume "js '','' \<in> set (map normalizeToken (tokenize s))"
  then obtain t where t: "t \<in> set (tokenize s)" "normalizeToken t = js '',''" by auto
  have "t = js '',''"
    using t(2)
    by (auto simp: normalizeToken_def Let_def toLowerCase_def String_Math_PI_def String_Math_E_def
        js_def isLetter_def isUpper_def isLower_def piSym_def list_all_iff split: if_splits)
  then have "tokenChar 44" using tokenize_chars[OF t(1), of 44] by (simp add: js_def)
  then show False by (simp add: tokenChar_def char_defs)
qed

subsection \<open>Function application\<close>

lemma functionName_cases:
  "isFunctionName f \<longleftrightarrow> f = js ''sin'' \<or> f = js ''cos'' \<or> f = js ''tan'' \<or> f = js ''sqrt''
     \<or> f = js ''log'' \<or> f = js ''ln''"
  by (auto simp: isFunctionName_def)

lemma functionName_facts:
  assumes "isFunctionName f"
  shows "normalizeToken f = f" "\<not> isNumber f" "list_all isIdentChar f" "f \<noteq> []"
    "evalToken f (a # st) = Inr (applyFunction f a # st)"
  using assms unfolding functionName_cases
  by (auto simp: char_defs token_defs evalToken_def unary_def applyFunction_def)

lemma tokenize_functionName:
  assumes "isFunctionName f" "follow rest"
  shows "tokenize (f @ rest) = f # tokenize rest"
proof -
  obtain c r where f: "f = c # r" using functionName_facts(4)[OF assms(1)] by (cases f) auto
  have id: "list_all isIdentChar f" by (rule functionName_facts(3)[OF assms(1)])
  then have c: "isIdentChar c" using f by simp
  then have nd: "\<not> isDigit c" "c \<noteq> dot" by (auto simp: char_defs)
  have "matchNumber (f @ rest) = 0" using nd f by (simp add: matchNumber_def)
  moreover have "takeWhile isIdentChar (f @ rest) = f"
    using id assms(2) symbol_not_digit
    by (cases rest) (auto simp: follow_def list_all_iff takeWhile_append2)
  then have "matchIdent (f @ rest) = length f" by (simp add: matchIdent_def)
  ultimately have "matchToken (f @ rest) = length f" using f by (simp add: matchToken_def)
  then show ?thesis using f by (subst tokenize.simps) simp
qed

text \<open>
  The lemmas on tokenizer, shunting-yard loop and stack evaluator again, for the grammar with
  calls. In the loop a call pushes its name, then the parenthesis; the closing parenthesis
  pops what the argument left above the opening one, drops the opening one and, finding the
  name on top, moves it to the output.
\<close>

lemma derivesFn_le: "derivesFn k ts e \<Longrightarrow> j \<le> k \<Longrightarrow> derivesFn j ts e"
proof (induction "k - j" arbitrary: j)
  case 0
  then show ?case by simp
next
  case (Suc d)
  then have "derivesFn (Suc j) ts e" by simp
  then show ?case by (rule derivesFn.weaken)
qed

lemma tokenize_derivesFn:
  "derivesFn k ts e \<Longrightarrow> follow rest \<Longrightarrow> tokenize (concat ts @ rest) = ts @ tokenize rest"
proof (induction arbitrary: rest rule: derivesFn.induct)
  case (literal t)
  then show ?case by (simp add: tokenize_literal)
next
  case (parens ts e)
  have c: "isSymbolChar 40" "isSymbolChar 41" by (simp_all add: char_defs)
  have "tokenize (concat ts @ 41 # rest) = ts @ tokenize (41 # rest)"
    using parens.IH[of "41 # rest"] c by (simp add: follow_symbol)
  then show ?case using c by (simp add: js_def tokenize_symbol)
next
  case (call g ts e)
  have c: "isSymbolChar 40" "isSymbolChar 41" by (simp_all add: char_defs)
  have "tokenize (concat ts @ 41 # rest) = ts @ tokenize (41 # rest)"
    using call.IH[of "41 # rest"] c by (simp add: follow_symbol)
  then have "tokenize (40 # concat ts @ 41 # rest) = [40] # ts @ [41] # tokenize rest"
    using c by (simp add: tokenize_symbol)
  then show ?case
    using tokenize_functionName[OF call.hyps(1), of "40 # concat ts @ 41 # rest"] c
    by (simp add: js_def follow_symbol)
next
  case (power ts1 a ts2 b)
  have c: "isSymbolChar 94" by (simp add: char_defs)
  have "tokenize (concat ts1 @ 94 # concat ts2 @ rest) = ts1 @ tokenize (94 # concat ts2 @ rest)"
    using power.IH(1)[of "94 # concat ts2 @ rest"] c by (simp add: follow_symbol)
  then show ?case using c power.IH(2)[OF power.prems] by (simp add: js_def tokenize_symbol)
next
  case (product ts1 a ts2 b f)
  obtain c where c: "opToken f = [c]" "isSymbolChar c" using opToken_symbol by blast
  have "tokenize (concat ts1 @ c # concat ts2 @ rest) = ts1 @ tokenize (c # concat ts2 @ rest)"
    using product.IH(1)[of "c # concat ts2 @ rest"] c by (simp add: follow_symbol)
  then show ?case using c product.IH(2)[OF product.prems] by (simp add: tokenize_symbol)
next
  case (sum ts1 a ts2 b f)
  obtain c where c: "opToken f = [c]" "isSymbolChar c" using opToken_symbol by blast
  have "tokenize (concat ts1 @ c # concat ts2 @ rest) = ts1 @ tokenize (c # concat ts2 @ rest)"
    using sum.IH(1)[of "c # concat ts2 @ rest"] c by (simp add: follow_symbol)
  then show ?case using c sum.IH(2)[OF sum.prems] by (simp add: tokenize_symbol)
next
  case (weaken k ts e)
  then show ?case by simp
qed

lemma normalize_derivesFn: "derivesFn k ts e \<Longrightarrow> map normalizeToken ts = ts"
proof (induction rule: derivesFn.induct)
  case (parens ts e)
  then show ?case by (simp add: char_defs token_defs)
next
  case (call g ts e)
  then show ?case using functionName_facts(1)[of g] normalizeToken_paren by simp
qed (simp_all add: normalizeToken_literal normalizeToken_opToken[of Pow, simplified] normalizeToken_opToken)

lemma derivesFn_wellformed: "derivesFn k ts e \<Longrightarrow> fwellformed e"
  by (induction rule: derivesFn.induct) auto

lemma evalRPN_frpn: "fwellformed e \<Longrightarrow> evalRPN (frpn e) st = Inr (fexprValue e # st)"
proof (induction e arbitrary: st)
  case (FLit t)
  then show ?case by (simp add: evalToken_literal)
next
  case (FBin a f b)
  then show ?case by (simp add: evalRPN_append evalToken_op)
next
  case (FCall g a)
  then show ?case by (simp add: evalRPN_append functionName_facts(5))
qed

lemma shuntStep_function: "isFunctionName g \<Longrightarrow> shuntStep g (out, ops) = (out, g # ops)"
  using functionName_facts(2)[of g] by (simp add: shuntStep_def)

lemma shunt_derivesFn:
  "derivesFn k ts e \<Longrightarrow> ctx k ops \<Longrightarrow>
   \<exists>out' pend. shunt ts (out, ops) = (out', pend @ ops) \<and> out' @ pend = out @ frpn e \<and> pending k pend"
proof (induction arbitrary: out ops rule: derivesFn.induct)
  case (literal t)
  then show ?case by (simp add: shunt_Cons shunt_Nil shuntStep_literal pending_def)
next
  case (parens ts e)
  have "ctx 1 (js ''('' # ops)" by (simp add: ctx_def)
  from parens.IH[OF this, of out] obtain out' pend where
    s: "shunt ts (out, js ''('' # ops) = (out', pend @ js ''('' # ops)"
       "out' @ pend = out @ frpn e" "pending 1 pend" by blast
  have p: "popWhile (\<lambda>x. x \<noteq> js ''('') (out', pend @ js ''('' # ops) = (out' @ pend, js ''('' # ops)"
    by (rule popWhile_pending) (use pending_not_paren[OF s(3)] in auto)
  have nf: "case ops of [] \<Rightarrow> True | x # _ \<Rightarrow> \<not> isFunctionName x"
    using parens.prems opToken_not_paren(2)[of Pow]
    by (cases ops) (auto simp: ctx_def opToken_not_paren open_not_function)
  have "shunt (js ''('' # ts @ [js '')'']) (out, ops) =
          shuntStep (js '')'') (out', pend @ js ''('' # ops)"
    by (simp add: shunt_Cons shunt_append shunt_Nil shuntStep_open s(1))
  also have "\<dots> = (case ops of [] \<Rightarrow> (out' @ pend, [])
        | f # ops2 \<Rightarrow> if isFunctionName f then ((out' @ pend) @ [f], ops2) else (out' @ pend, f # ops2))"
    by (simp add: shuntStep_close p)
  also have "\<dots> = (out @ frpn e, ops)"
    using nf s(2) by (cases ops) simp_all
  finally have "shunt (js ''('' # ts @ [js '')'']) (out, ops) = (out @ frpn e, ops)" .
  then show ?case by (simp add: pending_def)
next
  case (call g ts e)
  have "ctx 1 (js ''('' # g # ops)" by (simp add: ctx_def)
  from call.IH[OF this, of out] obtain out' pend where
    s: "shunt ts (out, js ''('' # g # ops) = (out', pend @ js ''('' # g # ops)"
       "out' @ pend = out @ frpn e" "pending 1 pend" by blast
  have p: "popWhile (\<lambda>x. x \<noteq> js ''('') (out', pend @ js ''('' # g # ops)
      = (out' @ pend, js ''('' # g # ops)"
    by (rule popWhile_pending) (use pending_not_paren[OF s(3)] in auto)
  have "shunt (g # js ''('' # ts @ [js '')'']) (out, ops) =
          shuntStep (js '')'') (out', pend @ js ''('' # g # ops)"
    by (simp add: shunt_Cons shunt_append shunt_Nil shuntStep_function[OF call.hyps(1)]
        shuntStep_open s(1))
  also have "\<dots> = ((out' @ pend) @ [g], ops)"
    using call.hyps(1) by (simp add: shuntStep_close p)
  finally have "shunt (g # js ''('' # ts @ [js '')'']) (out, ops) = (out @ frpn (FCall g e), ops)"
    using s(2) by simp
  then show ?case by (simp add: pending_def)
next
  case (power ts1 a ts2 b)
  have "ctx 4 ops" using power.prems by (rule ctx_mono) simp
  from power.IH(1)[OF this, of out] obtain out1 pend1 where
    s1: "shunt ts1 (out, ops) = (out1, pend1 @ ops)" "out1 @ pend1 = out @ frpn a" "pending 4 pend1"
    by blast
  have e1: "pend1 = []" using s1(3) by (rule pending_4)
  have "\<forall>x. \<not> yields (js ''^'') x"
    by (auto simp: yields_def rightAssoc_def precedence_def js_def)
  then have p: "popWhile (yields (js ''^'')) (out1, ops) = (out1, ops)"
    by (cases ops) simp_all
  have st: "shuntStep (js ''^'') (out1, ops) = (out1, js ''^'' # ops)"
    using shuntStep_op[of Pow] p by simp
  have "ctx 3 (js ''^'' # ops)" by (auto simp: ctx_def intro: exI[of _ Pow])
  from power.IH(2)[OF this, of out1] obtain out2 pend2 where
    s2: "shunt ts2 (out1, js ''^'' # ops) = (out2, pend2 @ js ''^'' # ops)"
        "out2 @ pend2 = out1 @ frpn b" "pending 3 pend2" by blast
  have "shunt (ts1 @ js ''^'' # ts2) (out, ops) = (out2, (pend2 @ [js ''^'']) @ ops)"
    using e1 by (simp add: shunt_append shunt_Cons s1(1) st s2(1))
  moreover have "out2 @ pend2 @ [js ''^''] = out @ frpn (FBin a Pow b)"
    using s1(2) s2(2) e1 by simp
  moreover have "pending 3 (pend2 @ [js ''^''])"
    using s2(3) precedence_opToken[of Pow] by (auto simp: pending_def intro: exI[of _ Pow])
  ultimately show ?case by (metis append.assoc)
next
  case (product ts1 a ts2 b f)
  have pf: "precedence (opToken f) = 2" "f \<noteq> Pow" using product.hyps(3) by (auto simp: precedence_opToken)
  from product.IH(1)[OF product.prems, of out] obtain out1 pend1 where
    s1: "shunt ts1 (out, ops) = (out1, pend1 @ ops)" "out1 @ pend1 = out @ frpn a" "pending 2 pend1"
    by blast
  have p: "popWhile (yields (opToken f)) (out1, pend1 @ ops) = (out1 @ pend1, ops)"
    using popWhile_left[of f pend1 ops out1] pf s1(3) product.prems by simp
  have st: "shuntStep (opToken f) (out1, pend1 @ ops) = (out @ frpn a, opToken f # ops)"
    by (simp add: shuntStep_op p s1(2))
  have "ctx 3 (opToken f # ops)" using pf by (auto simp: ctx_def)
  from product.IH(2)[OF this, of "out @ frpn a"] obtain out2 pend2 where
    s2: "shunt ts2 (out @ frpn a, opToken f # ops) = (out2, pend2 @ opToken f # ops)"
        "out2 @ pend2 = (out @ frpn a) @ frpn b" "pending 3 pend2" by blast
  have "shunt (ts1 @ opToken f # ts2) (out, ops) = (out2, (pend2 @ [opToken f]) @ ops)"
    by (simp add: shunt_append shunt_Cons s1(1) st s2(1))
  moreover have "out2 @ pend2 @ [opToken f] = out @ frpn (FBin a f b)"
    using s2(2) by simp
  moreover have "pending 2 (pend2 @ [opToken f])"
    using s2(3) pf by (auto simp: pending_def)
  ultimately show ?case by (metis append.assoc)
next
  case (sum ts1 a ts2 b f)
  have pf: "precedence (opToken f) = 1" "f \<noteq> Pow" using sum.hyps(3) by (auto simp: precedence_opToken)
  from sum.IH(1)[OF sum.prems, of out] obtain out1 pend1 where
    s1: "shunt ts1 (out, ops) = (out1, pend1 @ ops)" "out1 @ pend1 = out @ frpn a" "pending 1 pend1"
    by blast
  have p: "popWhile (yields (opToken f)) (out1, pend1 @ ops) = (out1 @ pend1, ops)"
    using popWhile_left[of f pend1 ops out1] pf s1(3) sum.prems by simp
  have st: "shuntStep (opToken f) (out1, pend1 @ ops) = (out @ frpn a, opToken f # ops)"
    by (simp add: shuntStep_op p s1(2))
  have "ctx 2 (opToken f # ops)" using pf by (auto simp: ctx_def)
  from sum.IH(2)[OF this, of "out @ frpn a"] obtain out2 pend2 where
    s2: "shunt ts2 (out @ frpn a, opToken f # ops) = (out2, pend2 @ opToken f # ops)"
        "out2 @ pend2 = (out @ frpn a) @ frpn b" "pending 2 pend2" by blast
  have "shunt (ts1 @ opToken f # ts2) (out, ops) = (out2, (pend2 @ [opToken f]) @ ops)"
    by (simp add: shunt_append shunt_Cons s1(1) st s2(1))
  moreover have "out2 @ pend2 @ [opToken f] = out @ frpn (FBin a f b)"
    using s2(2) by simp
  moreover have "pending 1 (pend2 @ [opToken f])"
    using s2(3) pf by (auto simp: pending_def)
  ultimately show ?case by (metis append.assoc)
next
  case (weaken k ts e)
  have "ctx (Suc k) ops" using weaken.prems by (rule ctx_mono) simp
  from weaken.IH[OF this, of out] obtain out' pend where
    "shunt ts (out, ops) = (out', pend @ ops)" "out' @ pend = out @ frpn e" "pending (Suc k) pend" by blast
  then show ?case by (auto simp: pending_def intro: Suc_leD)
qed

lemma toRPN_derivesFn: "derivesFn k ts e \<Longrightarrow> toRPN ts = frpn e"
proof -
  assume d: "derivesFn k ts e"
  have "ctx k []" by (simp add: ctx_def)
  from shunt_derivesFn[OF d this, of "[]"] obtain out' pend where
    "shunt ts ([], []) = (out', pend)" "out' @ pend = frpn e" by auto
  then show ?thesis by (simp add: toRPN_def popWhile_eq takeWhile_eq_all_conv[THEN iffD2])
qed

lemma evaluate_derivesFn:
  assumes "derivesFn k ts e"
  shows "evaluateExpression (concat ts) = Inr (fexprValue e)"
proof -
  have "tokenize (concat ts) = ts"
    using tokenize_derivesFn[OF assms, of "[]"] by (simp add: follow_def)
  then have "map normalizeToken (tokenize (concat ts)) = ts"
    using normalize_derivesFn[OF assms] by simp
  then show ?thesis
    by (simp add: evaluateExpression_def toRPN_derivesFn[OF assms]
        evalRPN_frpn[OF derivesFn_wellformed[OF assms]])
qed

lemma shunt_call:
  assumes g: "isFunctionName g" and d: "derivesFn 1 ts e"
  shows "shunt (g # js ''('' # ts @ [js '')'']) (out, ops) = (out @ frpn e @ [g], ops)"
proof -
  have "ctx 1 (js ''('' # g # ops)" by (simp add: ctx_def)
  from shunt_derivesFn[OF d this, of out] obtain out' pend where
    s: "shunt ts (out, js ''('' # g # ops) = (out', pend @ js ''('' # g # ops)"
       "out' @ pend = out @ frpn e" "pending 1 pend" by blast
  have p: "popWhile (\<lambda>x. x \<noteq> js ''('') (out', pend @ js ''('' # g # ops)
      = (out' @ pend, js ''('' # g # ops)"
    by (rule popWhile_pending) (use pending_not_paren[OF s(3)] in auto)
  have "shunt (g # js ''('' # ts @ [js '')'']) (out, ops) =
          shuntStep (js '')'') (out', pend @ js ''('' # g # ops)"
    by (simp add: shunt_Cons shunt_append shunt_Nil shuntStep_function[OF g] shuntStep_open s(1))
  also have "\<dots> = ((out' @ pend) @ [g], ops)"
    using g by (simp add: shuntStep_close p)
  finally show ?thesis using s(2) by simp
qed

subsection \<open>Values of the functions of Math\<close>

text \<open>Bounds on sine, cosine and tangent at 1 (radian) and on the natural logarithm of 2,
  from the series of the sine and from \<open>ln x \<le> x - 1\<close>.\<close>

lemma sin1: "8414 / 10000 < sin (1::real)" "sin (1::real) < 8415 / 10000"
proof -
  have "\<bar>sin (1::real) - 4241 / 5040\<bar> \<le> 1 / 40320"
    using Maclaurin_sin_bound[of 1 8]
    by (simp add: sin_coeff_def lessThan_nat_numeral lessThan_Suc fact_numeral)
  then show "8414 / 10000 < sin (1::real)" "sin (1::real) < 8415 / 10000" by linarith+
qed

lemma sin_half: "4794 / 10000 < sin (1 / 2::real)" "sin (1 / 2::real) < 4795 / 10000"
proof -
  have "\<bar>sin (1 / 2::real) - 1841 / 3840\<bar> \<le> 1 / 46080"
    using Maclaurin_sin_bound[of "1 / 2" 6]
    by (simp add: sin_coeff_def lessThan_nat_numeral lessThan_Suc fact_numeral power_divide)
  then show "4794 / 10000 < sin (1 / 2::real)" "sin (1 / 2::real) < 4795 / 10000" by linarith+
qed

lemma cos1: "5401 / 10000 < cos (1::real)" "cos (1::real) < 5404 / 10000"
proof -
  have c: "cos (1::real) = 1 - 2 * (sin (1 / 2))\<^sup>2"
    using cos_double_sin[of "1 / 2::real"] by simp
  have "(4794 / 10000)\<^sup>2 < (sin (1 / 2::real))\<^sup>2"
    using sin_half(1) by (intro power_strict_mono) simp_all
  moreover have "(sin (1 / 2::real))\<^sup>2 < (4795 / 10000)\<^sup>2"
    using sin_half by (intro power_strict_mono) simp_all
  ultimately show "5401 / 10000 < cos (1::real)" "cos (1::real) < 5404 / 10000"
    unfolding c by (simp_all add: power2_eq_square)
qed

lemma tan1: "1555 / 1000 < tan (1::real)" "tan (1::real) < 1559 / 1000"
proof -
  have c0: "0 < cos (1::real)" using cos1(1) by linarith
  show "1555 / 1000 < tan (1::real)"
    unfolding tan_def using sin1 cos1 c0 by (simp add: field_simps)
  show "tan (1::real) < 1559 / 1000"
    unfolding tan_def using sin1 cos1 c0 by (simp add: field_simps)
qed

lemma ln2: "583 / 1000 < ln (2::real)" "ln (2::real) < 834 / 1000"
proof -
  have a: "ln (2::real) = ln (4 / 3) + ln (3 / 2)"
    by (subst ln_mult_pos[symmetric]) simp_all
  have "ln (4 / 3::real) \<le> 4 / 3 - 1" "ln (3 / 2::real) \<le> 3 / 2 - 1"
    by (rule ln_le_minus_one, simp)+
  then show "ln (2::real) < 834 / 1000" unfolding a by linarith
  have "ln (3 / 4::real) + ln (2 / 3) = ln (1 / 2)"
    by (subst ln_mult_pos[symmetric]) simp_all
  then have b: "ln (2::real) = - (ln (3 / 4) + ln (2 / 3))"
    by (simp add: ln_div)
  have "ln (3 / 4::real) \<le> 3 / 4 - 1" "ln (2 / 3::real) \<le> 2 / 3 - 1"
    by (rule ln_le_minus_one, simp)+
  then show "583 / 1000 < ln (2::real)" unfolding b by linarith
qed


lemma approximates_rnd:
  assumes "normalRange v"
  shows "approximates (rnd v) v"
proof -
  obtain y where y: "rnd v = Fin y" "\<bar>y - v\<bar> \<le> \<bar>v\<bar> / 2 ^ 53"
    using rnd_error[of v] assms by (auto simp: normalRange_def)
  have "\<bar>v\<bar> / 2 ^ 53 \<le> \<bar>v\<bar> / 2 ^ 50"
    by (intro divide_left_mono) simp_all
  then show ?thesis using y by (simp add: approximates_def)
qed

lemma normalRange_unit:
  assumes "1 / 2 \<le> \<bar>v\<bar>" "\<bar>v\<bar> \<le> 4"
  shows "normalRange v"
proof -
  have "(2::real) powr (- 1022) \<le> 2 powr (- 1)"
    by (intro powr_mono) simp_all
  also have "\<dots> = 1 / 2" by (simp add: powr_minus_divide)
  finally have "2 powr (- 1022) \<le> \<bar>v\<bar>" using assms(1) by linarith
  moreover have "(2::real) ^ 2 \<le> 2 ^ 1022" by (intro power_increasing) simp_all
  then have "\<bar>v\<bar> < 2 ^ 1023" using assms(2) by simp
  ultimately show ?thesis by (simp add: normalRange_def)
qed

lemma approximates_bounds:
  assumes "approximates a v" "0 < v" "v \<le> 2"
  shows "\<exists>y. a = Fin y \<and> v - 1 / 2 ^ 49 \<le> y \<and> y \<le> v + 1 / 2 ^ 49"
proof -
  obtain y where y: "a = Fin y" "\<bar>y - v\<bar> \<le> \<bar>v\<bar> / 2 ^ 50"
    using assms(1) by (auto simp: approximates_def split: jsnum.splits)
  have "\<bar>v\<bar> / 2 ^ 50 \<le> 2 / 2 ^ 50" using assms(2,3) by (intro divide_right_mono) simp_all
  then have "\<bar>y - v\<bar> \<le> 1 / 2 ^ 49" using y(2) by simp
  then have "v - 1 / 2 ^ 49 \<le> y \<and> y \<le> v + 1 / 2 ^ 49" by linarith
  then show ?thesis using y(1) by blast
qed

section \<open>The claims\<close>

text \<open>
  C1. A well-formed expression of non-negative decimal literals, the binary operators
  \<open>+ - * / % ^\<close> and balanced parentheses evaluates to the value of its tree under the
  conventional reading: precedence 1 for \<open>+ -\<close>, 2 for \<open>* / %\<close>, 3 for \<open>^\<close>, with \<open>^\<close>
  associating to the right, the others to the left, and parentheses overriding precedence.
  In particular \<open>2+3*4\<close> is 14, \<open>2^3^2\<close> is 512 and \<open>(2+3)*4\<close> is 20.
\<close>

theorem C1_conventional_evaluation:
  "(derives 1 ts e \<longrightarrow> evaluateExpression (concat ts) = Inr (exprValue e))
   \<and> evaluateExpression (js ''2+3*4'') = Inr (Fin 14)
   \<and> evaluateExpression (js ''2^3^2'') = Inr (Fin 512)
   \<and> evaluateExpression (js ''(2+3)*4'') = Inr (Fin 20)"
proof (intro conjI impI)
  show "evaluateExpression (concat ts) = Inr (exprValue e)" if "derives 1 ts e"
    using that by (rule evaluate_derives)
  show "evaluateExpression (js ''2+3*4'') = Inr (Fin 14)"
    by (simp add: run_defs)
  show "evaluateExpression (js ''2^3^2'') = Inr (Fin 512)"
    by (simp add: run_defs)
  show "evaluateExpression (js ''(2+3)*4'') = Inr (Fin 20)"
    by (simp add: run_defs)
qed

theorem C1_conventional_evaluation_witness:
  "derives 1 [js ''2'', js ''^'', js ''3'', js ''^'', js ''2'', js ''*'', js ''('', js ''2'',
      js ''+'', js ''3'', js '')'']
     (Bin (Bin (Lit (js ''2'')) Pow (Bin (Lit (js ''3'')) Pow (Lit (js ''2'')))) Mul
          (Bin (Lit (js ''2'')) Add (Lit (js ''3''))))
   \<and> evaluateExpression (js ''2^3^2*(2+3)'') = Inr (Fin 2560)"
proof -
  let ?two = "Lit (js ''2'')" and ?three = "Lit (js ''3'')"
  have l2: "derives 4 [js ''2''] ?two" and l3: "derives 4 [js ''3''] ?three"
    by (rule derives.literal, simp add: isDecimalLiteral_def char_defs)+
  have "derives 3 ([js ''3''] @ js ''^'' # [js ''2'']) (Bin ?three Pow ?two)"
    by (rule derives.power[OF l3 derives_le[OF l2]]) simp
  from derives.power[OF l2 this]
  have "derives 3 [js ''2'', js ''^'', js ''3'', js ''^'', js ''2'']
      (Bin ?two Pow (Bin ?three Pow ?two))"
    by simp
  from derives_le[OF this, of 2]
  have p: "derives 2 [js ''2'', js ''^'', js ''3'', js ''^'', js ''2'']
      (Bin ?two Pow (Bin ?three Pow ?two))"
    by simp
  have "derives 1 ([js ''2''] @ opToken Add # [js ''3'']) (Bin ?two Add ?three)"
    by (rule derives.sum[OF derives_le[OF l2] derives_le[OF l3]]) simp_all
  then have "derives 1 [js ''2'', js ''+'', js ''3''] (Bin ?two Add ?three)"
    by simp
  from derives.parens[OF this]
  have "derives 4 [js ''('', js ''2'', js ''+'', js ''3'', js '')''] (Bin ?two Add ?three)"
    by simp
  from derives_le[OF this, of 3]
  have q: "derives 3 [js ''('', js ''2'', js ''+'', js ''3'', js '')'']
      (Bin ?two Add ?three)"
    by simp
  have "derives 2 ([js ''2'', js ''^'', js ''3'', js ''^'', js ''2''] @ opToken Mul
      # [js ''('', js ''2'', js ''+'', js ''3'', js '')''])
      (Bin (Bin ?two Pow (Bin ?three Pow ?two)) Mul (Bin ?two Add ?three))"
    by (rule derives.product[OF p q]) simp
  from derives_le[OF this, of 1]
  have d: "derives 1 [js ''2'', js ''^'', js ''3'', js ''^'', js ''2'', js ''*'', js ''('',
      js ''2'', js ''+'', js ''3'', js '')'']
      (Bin (Bin ?two Pow (Bin ?three Pow ?two)) Mul (Bin ?two Add ?three))"
    by simp
  have v: "exprValue (Bin (Bin ?two Pow (Bin ?three Pow ?two)) Mul (Bin ?two Add ?three))
      = Fin 2560"
    by (simp add: char_defs num_defs arith_defs)
  from C1_conventional_evaluation[THEN conjunct1, rule_format, OF d]
  have "evaluateExpression (js ''2^3^2*(2+3)'') = Inr (Fin 2560)"
    unfolding v by (simp add: js_def)
  with d show ?thesis by simp
qed

text \<open>
  C2, as stated, fails: not every input with unbalanced parentheses raises a fatal error.
  A closing parenthesis without a partner raises nothing, and \<open>2+3)\<close> returns 5.
\<close>

theorem C2_stray_close_counterexample:
  "evaluateExpression (js ''2+3)'') = Inr (Fin 5)"
  by (simp add: run_defs)

text \<open>
  C2, amended. Every input that leaves an opening parenthesis unclosed raises a fatal
  error: the parenthesis reaches the stack evaluator, which rejects it as an invalid
  token. In particular \<open>(2+3\<close> raises, with the token \<open>(\<close>. A closing parenthesis
  that finds no opening one on the operator stack is no error: it moves the whole stack
  to the output and is dropped.
\<close>

theorem C2_unclosed_open_raises:
  "(0 < unclosed (tokenize input) 0 \<longrightarrow> (\<exists>t. evaluateExpression input = Inl (InvalidToken t)))
   \<and> evaluateExpression (js ''(2+3'') = Inl (InvalidToken (js ''(''))
   \<and> (js ''('' \<notin> set ops \<longrightarrow> shuntStep (js '')'') (out, ops) = (out @ ops, []))"
proof (intro conjI impI)
  show "\<exists>t. evaluateExpression input = Inl (InvalidToken t)" if "0 < unclosed (tokenize input) 0"
    using that by (rule unclosed_raises)
  show "evaluateExpression (js ''(2+3'') = Inl (InvalidToken (js ''(''))"
    by (simp add: run_defs)
  show "shuntStep (js '')'') (out, ops) = (out @ ops, [])" if "js ''('' \<notin> set ops"
  proof -
    have tw: "takeWhile (\<lambda>x. x \<noteq> js ''('') ops = ops"
      using that by (induction ops) auto
    have dw: "dropWhile (\<lambda>x. x \<noteq> js ''('') ops = []"
      using that by (induction ops) auto
    show ?thesis unfolding shuntStep_close popWhile_eq tw dw by simp
  qed
qed

theorem C2_unclosed_open_raises_witness:
  "0 < unclosed (tokenize (js ''((2+3)*4'')) 0
   \<and> (\<exists>t. evaluateExpression (js ''((2+3)*4'') = Inl (InvalidToken t))
   \<and> js ''('' \<notin> set [js ''+'']
   \<and> shuntStep (js '')'') ([js ''2'', js ''3''], [js ''+'']) = ([js ''2'', js ''3'', js ''+''], [])"
proof -
  have u: "0 < unclosed (tokenize (js ''((2+3)*4'')) 0"
    by (simp add: tokenize_Cons char_defs match_defs)
  have n: "js ''('' \<notin> set [js ''+'']"
    by (simp add: js_def)
  note c = C2_unclosed_open_raises[of "js ''((2+3)*4''" "[js ''+'']" "[js ''2'', js ''3'']"]
  have 1: "\<exists>t. evaluateExpression (js ''((2+3)*4'') = Inl (InvalidToken t)"
    using c[THEN conjunct1, rule_format, OF u] .
  have 2: "shuntStep (js '')'') ([js ''2'', js ''3''], [js ''+'']) = ([js ''2'', js ''3'', js ''+''], [])"
    using c[THEN conjunct2, THEN conjunct2, rule_format, OF n] by simp
  show ?thesis using u 1 n 2 by simp
qed

text \<open>
  C3, as stated, fails: an operator that finds fewer operands than its arity raises no
  fatal error. The input \<open>2+\<close> returns NaN.
\<close>

theorem C3_missing_operand_counterexample:
  "evaluateExpression (js ''2+'') = Inr NaN"
  by (simp add: run_defs)

text \<open>
  C3, amended. No operator checks the size of the operand stack. A binary operator, the
  factorial or a function that finds too few operands takes \<^verbatim>\<open>undefined\<close> for each
  missing one and pushes its result, so the stack evaluator never raises at such a token,
  whatever the stack: \<open>*5\<close> returns NaN and \<open>!\<close> returns 1.
\<close>

theorem C3_missing_operands_are_undefined:
  "(isOperator t \<or> t = js ''!'' \<or> isFunctionName t \<longrightarrow> (\<exists>v stack'. evalToken t stack = Inr (v # stack')))
   \<and> evalToken (opToken f) [] = Inr [applyOp f NaN NaN]
   \<and> evalToken (opToken f) [b] = Inr [applyOp f NaN b]
   \<and> (f \<noteq> Pow \<longrightarrow> applyOp f NaN b = NaN)
   \<and> evalToken (js ''!'') [] = Inr [Fin 1]
   \<and> (isFunctionName g \<longrightarrow> evalToken g [] = Inr [NaN])
   \<and> evaluateExpression (js ''*5'') = Inr NaN
   \<and> evaluateExpression (js ''!'') = Inr (Fin 1)"
proof (intro conjI impI)
  show "\<exists>v stack'. evalToken t stack = Inr (v # stack')"
    if "isOperator t \<or> t = js ''!'' \<or> isFunctionName t"
  proof (cases "evalToken t stack")
    case (Inl err)
    then show ?thesis using evalToken_Inl_unknown[OF Inl] that by simp
  next
    case (Inr st)
    then have "st \<noteq> []"
      by (auto simp: evalToken_def binary_def unary_def Let_def split: if_splits prod.splits)
    then show ?thesis using Inr by (cases st) auto
  qed
  show "evalToken (opToken f) [] = Inr [applyOp f NaN NaN]"
    by (cases f) (simp_all add: evalToken_def isNumber_def binary_def char_defs)
  show "evalToken (opToken f) [b] = Inr [applyOp f NaN b]"
    by (cases f) (simp_all add: evalToken_def isNumber_def binary_def char_defs)
  show "applyOp f NaN b = NaN" if "f \<noteq> Pow"
    using that by (cases f) (simp_all add: jadd_def jsub_def jmul_def jdiv_def jrem_def)
  show "evalToken (js ''!'') [] = Inr [Fin 1]"
    by (simp add: evalToken_def isNumber_def unary_def factorialFn_def Math_floor_def char_defs)
  show "evalToken g [] = Inr [NaN]" if "isFunctionName g"
    using that unfolding functionName_cases
    by (auto simp: evalToken_def isNumber_def unary_def char_defs Math_sin_def Math_cos_def
        Math_tan_def Math_sqrt_def Math_log_def Math_log10_def Math_has_log10_def)
  show "evaluateExpression (js ''*5'') = Inr NaN"
    by (simp add: run_defs)
  show "evaluateExpression (js ''!'') = Inr (Fin 1)"
    by (simp add: run_defs factorialFn_def Math_floor_def)
qed

theorem C3_missing_operands_are_undefined_witness:
  "isOperator (js ''^'') \<and> Pow \<noteq> Mul \<and> isFunctionName (js ''sin'')
   \<and> (\<exists>v stack'. evalToken (js ''^'') [] = Inr (v # stack'))
   \<and> evalToken (js ''*'') [Fin 5] = Inr [NaN]
   \<and> evalToken (js ''sin'') [] = Inr [NaN]"
proof -
  have h: "isOperator (js ''^'')" "isFunctionName (js ''sin'')"
    by (simp_all add: isOperator_def isFunctionName_def js_def)
  note c = C3_missing_operands_are_undefined[of "js ''^''" "[]" Mul "Fin 5" "js ''sin''"]
  have 1: "\<exists>v stack'. evalToken (js ''^'') [] = Inr (v # stack')"
    using c h by blast
  have 2: "evalToken (js ''*'') [Fin 5] = Inr [NaN]"
    using c by simp
  have 3: "evalToken (js ''sin'') [] = Inr [NaN]"
    using c h by blast
  show ?thesis using h 1 2 3 by simp
qed




text \<open>
  C5. The factorial pops one operand \<open>n\<close> and pushes \<open>factorialFn n\<close>: Infinity when
  \<open>n < 0\<close> or \<open>n > 170\<close>, otherwise the product of the whole numbers from 2 to the floor
  of \<open>n\<close>, formed with the multiplication of the number type; that product is exactly the
  factorial of the floor at least as long as it stays below \<open>2 ^ 53\<close> (up to \<open>18!\<close>).
  The negative zero and NaN, which are neither below 0 nor above 170, give 1.
  \<open>0!\<close> is 1, \<open>5!\<close> is 120 and \<open>171!\<close> is Infinity.
\<close>

theorem C5_factorial:
  "evalToken (js ''!'') (n # stack) = Inr (factorialFn (Some n) # stack)
   \<and> (jless n (Fin 0) \<or> jless (Fin 170) n \<longrightarrow> factorialFn (Some n) = PosInfinity)
   \<and> (0 \<le> x \<and> x \<le> 170 \<longrightarrow>
        factorialFn (Some (Fin x)) =
          foldl (\<lambda>r i. jmul r (Fin (real i))) (Fin 1) [2..<Suc (nat \<lfloor>x\<rfloor>)])
   \<and> (0 \<le> x \<and> x < 19 \<longrightarrow> factorialFn (Some (Fin x)) = Fin (real (fact (nat \<lfloor>x\<rfloor>) :: nat)))
   \<and> factorialFn (Some NegZero) = Fin 1
   \<and> factorialFn (Some NaN) = Fin 1
   \<and> evaluateExpression (js ''0!'') = Inr (Fin 1)
   \<and> evaluateExpression (js ''5!'') = Inr (Fin 120)
   \<and> evaluateExpression (js ''171!'') = Inr PosInfinity"
proof (intro conjI impI)
  show "evalToken (js ''!'') (n # stack) = Inr (factorialFn (Some n) # stack)"
    by (rule evalToken_factorial)
  show "factorialFn (Some n) = PosInfinity" if "jless n (Fin 0) \<or> jless (Fin 170) n"
    using that by (rule factorialFn_out_of_range)
  show "factorialFn (Some (Fin x)) =
      foldl (\<lambda>r i. jmul r (Fin (real i))) (Fin 1) [2..<Suc (nat \<lfloor>x\<rfloor>)]" if "0 \<le> x \<and> x \<le> 170"
    using that factorialFn_in_range by blast
  show "factorialFn (Some (Fin x)) = Fin (real (fact (nat \<lfloor>x\<rfloor>) :: nat))" if "0 \<le> x \<and> x < 19"
    using that factorialFn_exact by blast
  show "factorialFn (Some NegZero) = Fin 1"
    by (simp add: factorialFn_def strictEquals_def)
  show "factorialFn (Some NaN) = Fin 1"
    by (simp add: factorialFn_def strictEquals_def Math_floor_def)
  show "evaluateExpression (js ''0!'') = Inr (Fin 1)"
    by (simp add: run_defs factorialFn_def strictEquals_def)
  show "evaluateExpression (js ''5!'') = Inr (Fin 120)"
    by (simp add: run_defs factorialFn_def strictEquals_def Math_floor_def factorialLoop.simps)
  show "evaluateExpression (js ''171!'') = Inr PosInfinity"
    by (simp add: run_defs factorialFn_def strictEquals_def)
qed

theorem C5_factorial_witness:
  "jless (Fin 170) (Fin 171) \<and> factorialFn (Some (Fin 171)) = PosInfinity
   \<and> factorialFn (Some (Fin (7 / 2))) = Fin 6"
proof -
  have a: "jless (Fin 170) (Fin 171)" by simp
  note c = C5_factorial[of "Fin 171" "[]" "7 / 2"]
  have 1: "factorialFn (Some (Fin 171)) = PosInfinity" using c a by blast
  have f: "nat \<lfloor>7 / 2 :: real\<rfloor> = 3" by simp
  have h: "(0::real) \<le> 7 / 2 \<and> (7 / 2 :: real) < 19" by simp
  from c[THEN conjunct2, THEN conjunct2, THEN conjunct2, THEN conjunct1, rule_format, OF h]
  have 2: "factorialFn (Some (Fin (7 / 2))) = Fin 6"
    unfolding f by (simp add: fact_numeral)
  show ?thesis using a 1 2 by simp
qed

text \<open>
  C6. When the loop over the output queue has consumed every token, a stack of exactly one
  value makes that value the result, and a stack of any other size raises the error
  "Invalid expression"; this is the only place that raises it. \<open>2 3\<close> (two values)
  and the empty input (none) raise it.
\<close>

theorem C6_final_stack:
  "(evalRPN (toRPN (map normalizeToken (tokenize input))) [] = Inr stack \<longrightarrow>
      (stack = [v] \<longrightarrow> evaluateExpression input = Inr v)
      \<and> (length stack \<noteq> 1 \<longrightarrow> evaluateExpression input = Inl InvalidExpression))
   \<and> (evaluateExpression input = Inr v \<longrightarrow>
        evalRPN (toRPN (map normalizeToken (tokenize input))) [] = Inr [v])
   \<and> (evaluateExpression input = Inl InvalidExpression \<longrightarrow>
        (\<exists>stack'. evalRPN (toRPN (map normalizeToken (tokenize input))) [] = Inr stack'
           \<and> length stack' \<noteq> 1))
   \<and> evaluateExpression (js ''2 3'') = Inl InvalidExpression
   \<and> evaluateExpression (js '''') = Inl InvalidExpression"
proof (intro conjI impI)
  let ?out = "toRPN (map normalizeToken (tokenize input))"
  show "evaluateExpression input = Inr v" if "evalRPN ?out [] = Inr stack" "stack = [v]"
    using that by (simp add: evaluateExpression_def)
  show "evaluateExpression input = Inl InvalidExpression"
    if "evalRPN ?out [] = Inr stack" "length stack \<noteq> 1"
    using that by (auto simp: evaluateExpression_def split: list.splits)
  show "evalRPN ?out [] = Inr [v]" if "evaluateExpression input = Inr v"
    using that by (auto simp: evaluateExpression_def Let_def split: sum.splits list.splits)
  show "\<exists>stack'. evalRPN ?out [] = Inr stack' \<and> length stack' \<noteq> 1"
    if "evaluateExpression input = Inl InvalidExpression"
  proof (cases "evalRPN ?out []")
    case (Inl err)
    then have "err = InvalidExpression" using that by (simp add: evaluateExpression_def)
    then show ?thesis using evalRPN_error[OF Inl] by auto
  next
    case (Inr st)
    then show ?thesis using that by (auto simp: evaluateExpression_def split: list.splits)
  qed
  show "evaluateExpression (js ''2 3'') = Inl InvalidExpression"
    by (simp add: run_defs)
  show "evaluateExpression (js '''') = Inl InvalidExpression"
    by (simp add: run_defs)
qed

theorem C6_final_stack_witness:
  "evalRPN (toRPN (map normalizeToken (tokenize (js ''2 3'')))) [] = Inr [Fin 3, Fin 2]
   \<and> length [Fin 3, Fin 2] \<noteq> 1
   \<and> evaluateExpression (js ''2 3'') = Inl InvalidExpression"
proof -
  have r: "evalRPN (toRPN (map normalizeToken (tokenize (js ''2 3'')))) [] = Inr [Fin 3, Fin 2]"
    by (simp add: run_defs)
  have "evaluateExpression (js ''2 3'') = Inl InvalidExpression"
    using C6_final_stack[of "js ''2 3''" "[Fin 3, Fin 2]"] r by simp
  then show ?thesis using r by simp
qed

text \<open>
  C7, as stated, fails: the root sign is no function token. The tokenizer passes over it,
  and the root sign before \<open>(16)\<close> evaluates as \<open>(16)\<close> alone, to 16 and not to 4.
\<close>

theorem C7_root_sign_counterexample:
  "evaluateExpression (sqrtSym # js ''(16)'') = Inr (Fin 16)"
  by (simp add: run_defs)

text \<open>
  C7, amended. The function tokens are the six names \<open>sin cos tan sqrt log ln\<close>. The parser
  pushes a name onto the operator stack, and the closing parenthesis that finds the name
  under its opening parenthesis moves it to the output at once. So, whatever the output and
  the operator stack were before it, a name with a parenthesised well-formed argument adds
  the argument's reverse Polish notation and then the name to the output and leaves the
  operator stack as it was; an expression with calls among its atoms evaluates to the value
  of its tree, each function applied to the value of its argument. \<open>sqrt(16)\<close> is 4, and
  \<open>sqrt(16)+1\<close> is parsed to \<open>16 sqrt 1 +\<close> and is 5. The root sign is not a function name,
  no token contains it, and the tokenizer passes over it.
\<close>

theorem C7_named_functions:
  "(isFunctionName f \<longrightarrow>
      shuntStep f (out, ops) = (out, f # ops)
      \<and> shuntStep (js '')'') (out, js ''('' # f # ops) = (out @ [f], ops))
   \<and> (isFunctionName f \<and> derivesFn 1 ts e \<longrightarrow>
        shunt (f # js ''('' # ts @ [js '')'']) (out, ops) = (out @ frpn e @ [f], ops))
   \<and> (derivesFn 1 ts e \<longrightarrow>
        toRPN ts = frpn e \<and> evaluateExpression (concat ts) = Inr (fexprValue e))
   \<and> \<not> isFunctionName [sqrtSym]
   \<and> tokenize (sqrtSym # s) = tokenize s
   \<and> (t \<in> set (tokenize s) \<longrightarrow> sqrtSym \<notin> set t)
   \<and> evaluateExpression (js ''sqrt(16)'') = Inr (Fin 4)
   \<and> toRPN (map normalizeToken (tokenize (js ''sqrt(16)+1'')))
       = [js ''16'', js ''sqrt'', js ''1'', js ''+'']
   \<and> evaluateExpression (js ''sqrt(16)+1'') = Inr (Fin 5)"
proof (intro conjI impI)
  show "shuntStep f (out, ops) = (out, f # ops)" if "isFunctionName f"
    using that by (rule shuntStep_function)
  show "shuntStep (js '')'') (out, js ''('' # f # ops) = (out @ [f], ops)" if "isFunctionName f"
    using that by (simp add: shuntStep_close)
  show "shunt (f # js ''('' # ts @ [js '')'']) (out, ops) = (out @ frpn e @ [f], ops)"
    if "isFunctionName f \<and> derivesFn 1 ts e"
    using that shunt_call by blast
  show "toRPN ts = frpn e" if "derivesFn 1 ts e"
    using that by (rule toRPN_derivesFn)
  show "evaluateExpression (concat ts) = Inr (fexprValue e)" if "derivesFn 1 ts e"
    using that by (rule evaluate_derivesFn)
  show "\<not> isFunctionName [sqrtSym]"
    by (simp add: isFunctionName_def char_defs)
  show "tokenize (sqrtSym # s) = tokenize s"
    using sqrtSym_not_tokenChar by (rule tokenize_skip)
  show "sqrtSym \<notin> set t" if "t \<in> set (tokenize s)"
    using that tokenize_chars sqrtSym_not_tokenChar by blast
  show "evaluateExpression (js ''sqrt(16)'') = Inr (Fin 4)"
    by (simp add: run_defs Math_sqrt_def)
  show "toRPN (map normalizeToken (tokenize (js ''sqrt(16)+1'')))
       = [js ''16'', js ''sqrt'', js ''1'', js ''+'']"
    by (simp add: run_defs)
  show "evaluateExpression (js ''sqrt(16)+1'') = Inr (Fin 5)"
    by (simp add: run_defs Math_sqrt_def)
qed

theorem C7_named_functions_witness:
  "isFunctionName (js ''sqrt'') \<and> derivesFn 1 [js ''16''] (FLit (js ''16''))
   \<and> shuntStep (js ''sqrt'') ([js ''2''], [js ''+'']) = ([js ''2''], [js ''sqrt'', js ''+''])
   \<and> shuntStep (js '')'') ([js ''2'', js ''16''], [js ''('', js ''sqrt'', js ''+''])
       = ([js ''2'', js ''16'', js ''sqrt''], [js ''+''])
   \<and> shunt [js ''sqrt'', js ''('', js ''16'', js '')''] ([js ''2''], [js ''+''])
       = ([js ''2'', js ''16'', js ''sqrt''], [js ''+''])
   \<and> derivesFn 1 [js ''sqrt'', js ''('', js ''16'', js '')'', js ''+'', js ''1'']
         (FBin (FCall (js ''sqrt'') (FLit (js ''16''))) Add (FLit (js ''1'')))
   \<and> toRPN [js ''sqrt'', js ''('', js ''16'', js '')'', js ''+'', js ''1'']
       = [js ''16'', js ''sqrt'', js ''1'', js ''+'']
   \<and> evaluateExpression (js ''sqrt(16)+1'') = Inr (Fin 5)
   \<and> js ''sqrt'' \<in> set (tokenize (sqrtSym # js ''sqrt(16)''))
   \<and> sqrtSym \<notin> set (js ''sqrt'')"
proof -
  let ?ts = "[js ''sqrt'', js ''('', js ''16'', js '')'', js ''+'', js ''1'']"
  let ?e = "FBin (FCall (js ''sqrt'') (FLit (js ''16''))) Add (FLit (js ''1''))"
  have f: "isFunctionName (js ''sqrt'')"
    by (simp add: isFunctionName_def)
  have "derivesFn 4 [js ''16''] (FLit (js ''16''))"
    by (rule derivesFn.literal) (simp add: isDecimalLiteral_def char_defs)
  from derivesFn_le[OF this, of 1] have d: "derivesFn 1 [js ''16''] (FLit (js ''16''))"
    by simp
  have "derivesFn 4 [js ''1''] (FLit (js ''1''))"
    by (rule derivesFn.literal) (simp add: isDecimalLiteral_def char_defs)
  from derivesFn_le[OF this, of 2] have d1: "derivesFn 2 [js ''1''] (FLit (js ''1''))"
    by simp
  have "derivesFn 4 (js ''sqrt'' # js ''('' # [js ''16''] @ [js '')''])
      (FCall (js ''sqrt'') (FLit (js ''16'')))"
    using f d by (rule derivesFn.call)
  from derivesFn_le[OF this, of 1]
  have "derivesFn 1 ((js ''sqrt'' # js ''('' # [js ''16''] @ [js '')'']) @ opToken Add # [js ''1'']) ?e"
    by (intro derivesFn.sum d1) simp_all
  then have d2: "derivesFn 1 ?ts ?e" by simp
  have m: "js ''sqrt'' \<in> set (tokenize (sqrtSym # js ''sqrt(16)''))"
    by (simp add: tokenize_Cons char_defs match_defs)
  note c = C7_named_functions[of "js ''sqrt''" "[js ''2'']" "[js ''+'']" "[js ''16'']"
      "FLit (js ''16'')" "js ''sqrt(16)''" "js ''sqrt''"]
  note c2 = C7_named_functions[of "js ''sqrt''" "[js ''2'', js ''16'']" "[js ''+'']" ?ts ?e
      "js ''sqrt(16)''" "js ''sqrt''"]
  have 1: "shuntStep (js ''sqrt'') ([js ''2''], [js ''+'']) = ([js ''2''], [js ''sqrt'', js ''+''])"
    using c[THEN conjunct1, rule_format, OF f, THEN conjunct1] .
  have 2: "shuntStep (js '')'') ([js ''2'', js ''16''], [js ''('', js ''sqrt'', js ''+''])
       = ([js ''2'', js ''16'', js ''sqrt''], [js ''+''])"
    using c2[THEN conjunct1, rule_format, OF f, THEN conjunct2] by simp
  have 3: "shunt [js ''sqrt'', js ''('', js ''16'', js '')''] ([js ''2''], [js ''+''])
       = ([js ''2'', js ''16'', js ''sqrt''], [js ''+''])"
    using c[THEN conjunct2, THEN conjunct1, rule_format, OF conjI[OF f d]] by simp
  have 4: "toRPN ?ts = [js ''16'', js ''sqrt'', js ''1'', js ''+'']"
    using c2[THEN conjunct2, THEN conjunct2, THEN conjunct1, rule_format, OF d2, THEN conjunct1]
    by simp
  have 5: "evaluateExpression (js ''sqrt(16)+1'') = Inr (Fin 5)"
    using c2[THEN conjunct2, THEN conjunct2, THEN conjunct1, rule_format, OF d2, THEN conjunct2]
    by (simp add: js_def applyFunction_def Math_sqrt_def num_defs char_defs arith_defs)
  have 6: "sqrtSym \<notin> set (js ''sqrt'')"
    using c[THEN conjunct2, THEN conjunct2, THEN conjunct2, THEN conjunct2, THEN conjunct2,
        THEN conjunct1, rule_format]
      m tokenize_skip[OF sqrtSym_not_tokenChar] by simp
  show ?thesis using f d 1 2 3 d2 4 5 m 6 by simp
qed

text \<open>
  C8. A token that is not a number, a function name, an operator or a parenthesis (nor a
  comma, which the tokenizer never produces) is appended to the output queue by the parser; the stack evaluator converts it with
  \<^verbatim>\<open>Number\<close>, pushes the number when there is one and raises the invalid-token error when
  the conversion gives NaN. So an input with such an unparseable token raises that error,
  and an input that raises it names a token of this kind, or an opening parenthesis left
  unclosed. \<open>abc\<close> raises; \<open>.5\<close>, which the parser does not take for a number, is pushed
  as one half.
\<close>

theorem C8_unknown_tokens:
  "(unknownToken t \<longrightarrow>
      shuntStep t (out, ops) = (out @ [t], ops)
      \<and> evalToken t stack
          = (if Number t = NaN then Inl (InvalidToken t) else Inr (Number t # stack)))
   \<and> (t \<in> set (map normalizeToken (tokenize input)) \<and> unknownToken t \<and> Number t = NaN \<longrightarrow>
        (\<exists>t'. evaluateExpression input = Inl (InvalidToken t')))
   \<and> (evaluateExpression input = Inl (InvalidToken t) \<longrightarrow>
        t \<in> set (map normalizeToken (tokenize input)) \<and> Number t = NaN
        \<and> (unknownToken t \<or> t = js ''(''))
   \<and> js '','' \<notin> set (map normalizeToken (tokenize input))
   \<and> evaluateExpression (js ''abc'') = Inl (InvalidToken (js ''abc''))
   \<and> evaluateExpression (js ''.5'') = Inr (Fin (1 / 2))"
proof (intro conjI impI notI)
  let ?ts = "map normalizeToken (tokenize input)"
  show "shuntStep t (out, ops) = (out @ [t], ops)" if "unknownToken t"
    using that by (rule shuntStep_unknown)
  show "evalToken t stack = (if Number t = NaN then Inl (InvalidToken t) else Inr (Number t # stack))"
    if "unknownToken t"
    using that by (rule evalToken_unknown)
  show "\<exists>t'. evaluateExpression input = Inl (InvalidToken t')"
    if h: "t \<in> set ?ts \<and> unknownToken t \<and> Number t = NaN"
  proof -
    have "t \<in> set (toRPN ?ts)" using h toRPN_unknown by blast
    moreover have "evalToken t [] = Inl (InvalidToken t)" using h evalToken_unknown by simp
    ultimately show ?thesis using evaluate_InvalidToken_iff by blast
  qed
  assume e: "evaluateExpression input = Inl (InvalidToken t)"
  then have "evalRPN (toRPN ?ts) [] = Inl (InvalidToken t)"
    by (auto simp: evaluateExpression_def Let_def split: sum.splits list.splits)
  from evalRPN_error[OF this] have m: "t \<in> set (toRPN ?ts)" and i: "evalToken t [] = Inl (InvalidToken t)"
    by auto
  have s: "t \<in> set ?ts" "t \<noteq> js '')''" "t \<noteq> js '',''"
    using m toRPN_sets[of ?ts] by auto
  show "t \<in> set ?ts" by (rule s(1))
  show "Number t = NaN" using evalToken_Inl_unknown[OF i] by simp
  show "unknownToken t \<or> t = js ''(''"
    using evalToken_Inl_unknown[OF i] s by (auto simp: unknownToken_def)
next
  assume "js '','' \<in> set (map normalizeToken (tokenize input))"
  then show False using comma_not_token by blast
next
  show "evaluateExpression (js ''abc'') = Inl (InvalidToken (js ''abc''))"
    by (simp add: run_defs)
  show "evaluateExpression (js ''.5'') = Inr (Fin (1 / 2))"
    using rnd_exact[of "1 / 2" 1 "- 1"] by (simp add: run_defs powr_minus)
qed

theorem C8_unknown_tokens_witness:
  "unknownToken (js ''abc'') \<and> Number (js ''abc'') = NaN
   \<and> js ''abc'' \<in> set (map normalizeToken (tokenize (js ''2+ABC'')))
   \<and> shuntStep (js ''abc'') ([js ''2''], [js ''+'']) = ([js ''2'', js ''abc''], [js ''+''])
   \<and> evalToken (js ''abc'') [Fin 2] = Inl (InvalidToken (js ''abc''))
   \<and> (\<exists>t'. evaluateExpression (js ''2+ABC'') = Inl (InvalidToken t'))"
proof -
  have u: "unknownToken (js ''abc'')"
    by (simp add: unknownToken_def isNumber_def isFunctionName_def isOperator_def char_defs)
  have n: "Number (js ''abc'') = NaN"
    by (simp add: num_defs char_defs)
  have m: "js ''abc'' \<in> set (map normalizeToken (tokenize (js ''2+ABC'')))"
    by (simp add: tokenize_Cons char_defs match_defs token_defs)
  note c = C8_unknown_tokens[of "js ''abc''" "[js ''2'']" "[js ''+'']" "[Fin 2]" "js ''2+ABC''"]
  have 1: "shuntStep (js ''abc'') ([js ''2''], [js ''+'']) = ([js ''2'', js ''abc''], [js ''+''])"
    using c[THEN conjunct1, rule_format, OF u, THEN conjunct1] by simp
  have 2: "evalToken (js ''abc'') [Fin 2] = Inl (InvalidToken (js ''abc''))"
    using c[THEN conjunct1, rule_format, OF u, THEN conjunct2] n by simp
  have 3: "\<exists>t'. evaluateExpression (js ''2+ABC'') = Inl (InvalidToken t')"
    using c[THEN conjunct2, THEN conjunct1, rule_format] m u n by blast
  show ?thesis using u n m 1 2 3 by simp
qed

text \<open>
  C9. A function token pops one operand and pushes the function of \<^verbatim>\<open>Math\<close> applied to
  it, with no conversion of the argument. The trigonometric functions take radians: the
  results for \<open>sin\<close>, \<open>cos\<close> and \<open>tan\<close> approximate the real sine, cosine and tangent of
  the operand itself. \<open>log\<close> approximates the logarithm to base 10 and \<open>ln\<close> the natural
  logarithm, \<open>sqrt\<close> the square root. \<open>sin(0)\<close> is 0, \<open>cos(0)\<close> is 1, \<open>sqrt(16)\<close> is
  4, \<open>log(100)\<close> is 2 and \<open>ln(1)\<close> is 0; \<open>sin(1)\<close> lies between 0.841 and 0.842,
  \<open>cos(1)\<close> between 0.540 and 0.541, \<open>tan(1)\<close> between 1.55 and 1.56, and \<open>ln(2)\<close>
  between 0.58 and 0.84.
\<close>

theorem C9_unary_functions:
  "evalToken (js ''sin'') (a # stack) = Inr (Math_sin a # stack)
   \<and> evalToken (js ''cos'') (a # stack) = Inr (Math_cos a # stack)
   \<and> evalToken (js ''tan'') (a # stack) = Inr (Math_tan a # stack)
   \<and> evalToken (js ''sqrt'') (a # stack) = Inr (Math_sqrt a # stack)
   \<and> evalToken (js ''log'') (a # stack) = Inr (Math_log10 a # stack)
   \<and> evalToken (js ''ln'') (a # stack) = Inr (Math_log a # stack)
   \<and> (normalRange (sin x) \<longrightarrow> approximates (Math_sin (Fin x)) (sin x))
   \<and> (normalRange (cos x) \<longrightarrow> approximates (Math_cos (Fin x)) (cos x))
   \<and> (normalRange (tan x) \<longrightarrow> approximates (Math_tan (Fin x)) (tan x))
   \<and> (0 < x \<and> normalRange (sqrt x) \<longrightarrow> approximates (Math_sqrt (Fin x)) (sqrt x))
   \<and> (0 < x \<and> normalRange (log 10 x) \<longrightarrow> approximates (Math_log10 (Fin x)) (log 10 x))
   \<and> (0 < x \<and> normalRange (ln x) \<longrightarrow> approximates (Math_log (Fin x)) (ln x))
   \<and> evaluateExpression (js ''sin(0)'') = Inr (Fin 0)
   \<and> evaluateExpression (js ''cos(0)'') = Inr (Fin 1)
   \<and> evaluateExpression (js ''sqrt(16)'') = Inr (Fin 4)
   \<and> evaluateExpression (js ''log(100)'') = Inr (Fin 2)
   \<and> evaluateExpression (js ''ln(1)'') = Inr (Fin 0)
   \<and> (\<exists>y. evaluateExpression (js ''sin(1)'') = Inr (Fin y) \<and> 841 / 1000 < y \<and> y < 842 / 1000)
   \<and> (\<exists>y. evaluateExpression (js ''cos(1)'') = Inr (Fin y) \<and> 540 / 1000 < y \<and> y < 541 / 1000)
   \<and> (\<exists>y. evaluateExpression (js ''tan(1)'') = Inr (Fin y) \<and> 155 / 100 < y \<and> y < 156 / 100)
   \<and> (\<exists>y. evaluateExpression (js ''ln(2)'') = Inr (Fin y) \<and> 58 / 100 < y \<and> y < 84 / 100)"
proof (intro conjI impI)
  show "evalToken (js ''sin'') (a # stack) = Inr (Math_sin a # stack)"
    "evalToken (js ''cos'') (a # stack) = Inr (Math_cos a # stack)"
    "evalToken (js ''tan'') (a # stack) = Inr (Math_tan a # stack)"
    "evalToken (js ''sqrt'') (a # stack) = Inr (Math_sqrt a # stack)"
    "evalToken (js ''log'') (a # stack) = Inr (Math_log10 a # stack)"
    "evalToken (js ''ln'') (a # stack) = Inr (Math_log a # stack)"
    by (simp_all add: evalToken_def isNumber_def unary_def char_defs Math_has_log10_def)
  show "approximates (Math_sin (Fin x)) (sin x)" if "normalRange (sin x)"
    using approximates_rnd[OF that] that by (auto simp: Math_sin_def normalRange_def)
  show "approximates (Math_cos (Fin x)) (cos x)" if "normalRange (cos x)"
    using approximates_rnd[OF that] that rnd_1 by (auto simp: Math_cos_def normalRange_def)
  show "approximates (Math_tan (Fin x)) (tan x)" if "normalRange (tan x)"
    using approximates_rnd[OF that] that by (auto simp: Math_tan_def normalRange_def)
  show "approximates (Math_sqrt (Fin x)) (sqrt x)" if "0 < x \<and> normalRange (sqrt x)"
    using approximates_rnd[of "sqrt x"] that by (simp add: Math_sqrt_def)
  show "approximates (Math_log10 (Fin x)) (log 10 x)" if "0 < x \<and> normalRange (log 10 x)"
    using approximates_rnd[of "log 10 x"] that by (auto simp: Math_log10_def normalRange_def)
  show "approximates (Math_log (Fin x)) (ln x)" if "0 < x \<and> normalRange (ln x)"
    using approximates_rnd[of "ln x"] that by (auto simp: Math_log_def normalRange_def)
  show "evaluateExpression (js ''sin(0)'') = Inr (Fin 0)"
    by (simp add: run_defs Math_sin_def)
  show "evaluateExpression (js ''cos(0)'') = Inr (Fin 1)"
    by (simp add: run_defs Math_cos_def)
  show "evaluateExpression (js ''sqrt(16)'') = Inr (Fin 4)"
    by (simp add: run_defs Math_sqrt_def)
  show "evaluateExpression (js ''log(100)'') = Inr (Fin 2)"
    by (simp add: run_defs Math_log10_def log100)
  show "evaluateExpression (js ''ln(1)'') = Inr (Fin 0)"
    by (simp add: run_defs Math_log_def)
  have s: "evaluateExpression (js ''sin(1)'') = Inr (rnd (sin 1))"
    by (simp add: run_defs Math_sin_def)
  have "approximates (rnd (sin 1)) (sin 1)"
    using sin1 by (intro approximates_rnd normalRange_unit) simp_all
  from approximates_bounds[OF this] sin1
  show "\<exists>y. evaluateExpression (js ''sin(1)'') = Inr (Fin y) \<and> 841 / 1000 < y \<and> y < 842 / 1000"
    unfolding s by fastforce
  have c: "evaluateExpression (js ''cos(1)'') = Inr (rnd (cos 1))"
    by (simp add: run_defs Math_cos_def)
  have "approximates (rnd (cos 1)) (cos 1)"
    using cos1 by (intro approximates_rnd normalRange_unit) simp_all
  from approximates_bounds[OF this] cos1
  show "\<exists>y. evaluateExpression (js ''cos(1)'') = Inr (Fin y) \<and> 540 / 1000 < y \<and> y < 541 / 1000"
    unfolding c by fastforce
  have t: "evaluateExpression (js ''tan(1)'') = Inr (rnd (tan 1))"
    by (simp add: run_defs Math_tan_def)
  have "approximates (rnd (tan 1)) (tan 1)"
    using tan1 by (intro approximates_rnd normalRange_unit) simp_all
  from approximates_bounds[OF this] tan1
  show "\<exists>y. evaluateExpression (js ''tan(1)'') = Inr (Fin y) \<and> 155 / 100 < y \<and> y < 156 / 100"
    unfolding t by fastforce
  have l: "evaluateExpression (js ''ln(2)'') = Inr (rnd (ln 2))"
    by (simp add: run_defs Math_log_def)
  have "approximates (rnd (ln 2)) (ln 2)"
    using ln2 by (intro approximates_rnd normalRange_unit) simp_all
  from approximates_bounds[OF this] ln2
  show "\<exists>y. evaluateExpression (js ''ln(2)'') = Inr (Fin y) \<and> 58 / 100 < y \<and> y < 84 / 100"
    unfolding l by fastforce
qed

theorem C9_unary_functions_witness:
  "normalRange (sin 1) \<and> approximates (Math_sin (Fin 1)) (sin 1)
   \<and> normalRange (cos 1) \<and> approximates (Math_cos (Fin 1)) (cos 1)
   \<and> normalRange (tan 1) \<and> approximates (Math_tan (Fin 1)) (tan 1)
   \<and> normalRange (sqrt 16) \<and> approximates (Math_sqrt (Fin 16)) (sqrt 16)
   \<and> normalRange (log 10 100) \<and> approximates (Math_log10 (Fin 100)) (log 10 100)
   \<and> normalRange (ln 2) \<and> approximates (Math_log (Fin 2)) (ln 2)
   \<and> evalToken (js ''log'') [Fin 100, Fin 7] = Inr [Fin 2, Fin 7]
   \<and> evalToken (js ''cos'') [Fin 0] = Inr [Fin 1]"
proof -
  have n: "normalRange (sin 1)" "normalRange (cos 1)" "normalRange (tan 1)" "normalRange (ln 2)"
    using sin1 cos1 tan1 ln2 by (intro normalRange_unit, simp, simp)+
  have q: "sqrt 16 = 4" using real_sqrt_abs[of 4] by simp
  have n2: "normalRange (sqrt 16)" "normalRange (log 10 100)"
    unfolding q log100 by (intro normalRange_unit, simp, simp)+
  note c1 = C9_unary_functions[of "Fin 100" "[Fin 7]" 1]
  note c2 = C9_unary_functions[of "Fin 0" "[]" 2]
  note c16 = C9_unary_functions[of "Fin 0" "[]" 16]
  note c100 = C9_unary_functions[of "Fin 0" "[]" 100]
  have 1: "approximates (Math_sin (Fin 1)) (sin 1)"
    using c1[THEN conjunct2, THEN conjunct2, THEN conjunct2, THEN conjunct2, THEN conjunct2,
        THEN conjunct2, THEN conjunct1, rule_format, OF n(1)] .
  have 2: "approximates (Math_cos (Fin 1)) (cos 1)"
    using c1[THEN conjunct2, THEN conjunct2, THEN conjunct2, THEN conjunct2, THEN conjunct2,
        THEN conjunct2, THEN conjunct2, THEN conjunct1, rule_format, OF n(2)] .
  have 3: "approximates (Math_tan (Fin 1)) (tan 1)"
    using c1[THEN conjunct2, THEN conjunct2, THEN conjunct2, THEN conjunct2, THEN conjunct2,
        THEN conjunct2, THEN conjunct2, THEN conjunct2, THEN conjunct1, rule_format, OF n(3)] .
  have 4: "approximates (Math_sqrt (Fin 16)) (sqrt 16)"
    using c16[THEN conjunct2, THEN conjunct2, THEN conjunct2, THEN conjunct2, THEN conjunct2,
        THEN conjunct2, THEN conjunct2, THEN conjunct2, THEN conjunct2, THEN conjunct1,
        rule_format] n2(1) by simp
  have 5: "approximates (Math_log10 (Fin 100)) (log 10 100)"
    using c100[THEN conjunct2, THEN conjunct2, THEN conjunct2, THEN conjunct2, THEN conjunct2,
        THEN conjunct2, THEN conjunct2, THEN conjunct2, THEN conjunct2, THEN conjunct2,
        THEN conjunct1, rule_format] n2(2) by simp
  have 6: "approximates (Math_log (Fin 2)) (ln 2)"
    using c2[THEN conjunct2, THEN conjunct2, THEN conjunct2, THEN conjunct2, THEN conjunct2,
        THEN conjunct2, THEN conjunct2, THEN conjunct2, THEN conjunct2, THEN conjunct2,
        THEN conjunct2, THEN conjunct1, rule_format] n(4) by simp
  have "Math_log10 (Fin 100) = Fin 2" by (simp add: Math_log10_def log100)
  then have 7: "evalToken (js ''log'') [Fin 100, Fin 7] = Inr [Fin 2, Fin 7]"
    using c1[THEN conjunct2, THEN conjunct2, THEN conjunct2, THEN conjunct2, THEN conjunct1]
    by simp
  have "Math_cos (Fin 0) = Fin 1" by (simp add: Math_cos_def)
  then have 8: "evalToken (js ''cos'') [Fin 0] = Inr [Fin 1]"
    using c2[THEN conjunct2, THEN conjunct1] by simp
  show ?thesis using n n2 1 2 3 4 5 6 7 8 by blast
qed

text \<open>
  C10. The names of the constants are compared before the token is lower-cased, so they
  are case-sensitive while the function names are not. \<open>pi\<close>, \<open>PI\<close> and the Greek letter
  evaluate to \<^verbatim>\<open>Math.PI\<close>, and \<open>e\<close> to \<^verbatim>\<open>Math.E\<close>; \<open>Pi\<close>, \<open>pI\<close> and \<open>E\<close> are
  lower-cased only afterwards and raise the invalid-token error; \<open>SIN(0)\<close> evaluates, to 0.
  Every other token of ASCII letters is replaced by its lower-case form.
\<close>

theorem C10_constants_are_case_sensitive:
  "evaluateExpression (js ''pi'') = Inr Math_PI
   \<and> evaluateExpression (js ''PI'') = Inr Math_PI
   \<and> evaluateExpression [piSym] = Inr Math_PI
   \<and> evaluateExpression (js ''e'') = Inr Math_E
   \<and> evaluateExpression (js ''Pi'') = Inl (InvalidToken (js ''pi''))
   \<and> evaluateExpression (js ''pI'') = Inl (InvalidToken (js ''pi''))
   \<and> evaluateExpression (js ''E'') = Inl (InvalidToken (js ''e''))
   \<and> evaluateExpression (js ''SIN(0)'') = Inr (Fin 0)
   \<and> normalizeToken (js ''Pi'') = js ''pi''
   \<and> normalizeToken (js ''E'') = js ''e''
   \<and> normalizeToken (js ''SIN'') = js ''sin''
   \<and> (t \<noteq> [] \<and> list_all isLetter t \<and> t \<noteq> js ''pi'' \<and> t \<noteq> js ''PI'' \<and> t \<noteq> js ''e'' \<longrightarrow>
        normalizeToken t = toLowerCase t)"
proof (intro conjI impI)
  show "evaluateExpression (js ''pi'') = Inr Math_PI"
    using rnd_pi by (simp add: run_defs)
  show "evaluateExpression (js ''PI'') = Inr Math_PI"
    using rnd_pi by (simp add: run_defs)
  show "evaluateExpression [piSym] = Inr Math_PI"
    using rnd_pi by (simp add: run_defs)
  show "evaluateExpression (js ''e'') = Inr Math_E"
    using rnd_e by (simp add: run_defs)
  show "evaluateExpression (js ''Pi'') = Inl (InvalidToken (js ''pi''))"
    by (simp add: run_defs)
  show "evaluateExpression (js ''pI'') = Inl (InvalidToken (js ''pi''))"
    by (simp add: run_defs)
  show "evaluateExpression (js ''E'') = Inl (InvalidToken (js ''e''))"
    by (simp add: run_defs)
  show "evaluateExpression (js ''SIN(0)'') = Inr (Fin 0)"
    by (simp add: run_defs Math_sin_def)
  show "normalizeToken (js ''Pi'') = js ''pi''" "normalizeToken (js ''E'') = js ''e''"
    "normalizeToken (js ''SIN'') = js ''sin''"
    by (simp_all add: char_defs token_defs)
  show "normalizeToken t = toLowerCase t"
    if "t \<noteq> [] \<and> list_all isLetter t \<and> t \<noteq> js ''pi'' \<and> t \<noteq> js ''PI'' \<and> t \<noteq> js ''e''"
    using that by (auto simp: normalizeToken_def Let_def isLetter_def isUpper_def isLower_def piSym_def)
qed

theorem C10_constants_are_case_sensitive_witness:
  "evaluateExpression (js ''PI'') = evaluateExpression (js ''pi'')
   \<and> evaluateExpression (js ''Pi'') \<noteq> evaluateExpression (js ''pi'')
   \<and> list_all isLetter (js ''Cos'')
   \<and> normalizeToken (js ''Cos'') = js ''cos''"
proof -
  have l: "js ''Cos'' \<noteq> [] \<and> list_all isLetter (js ''Cos'') \<and> js ''Cos'' \<noteq> js ''pi''
      \<and> js ''Cos'' \<noteq> js ''PI'' \<and> js ''Cos'' \<noteq> js ''e''"
    by (simp add: char_defs)
  note c = C10_constants_are_case_sensitive[of "js ''Cos''"]
  have "normalizeToken (js ''Cos'') = toLowerCase (js ''Cos'')"
    using c l by blast
  then have "normalizeToken (js ''Cos'') = js ''cos''"
    by (simp add: toLowerCase_def char_defs)
  moreover have "evaluateExpression (js ''PI'') = evaluateExpression (js ''pi'')"
    "evaluateExpression (js ''Pi'') \<noteq> evaluateExpression (js ''pi'')"
    using c by simp_all
  ultimately show ?thesis using l by simp
qed

end
